theory Spec2Isabelle
  imports Complex_Main "HOL-Library.Char_ord" "HOL-Library.List_Lexorder"
    "HOL-Library.Log_Nat" "HOL-Library.Product_Lexorder"
begin

section \<open>Errors and array primitives\<close>

text \<open>
  The script \<open>scripts/dcpg_data.py\<close> works on numpy arrays and pandas tables.
  Arrays are lists here; every exception the script can raise is a value of
  \<open>error\<close>, and a function that can raise returns \<open>error + 'a\<close>.
\<close>

datatype error =
  AssertionError | ValueError | TypeError | KeyError | IndexError | ZeroDivisionError
  | OverflowError

text \<open>\<open>np.in1d(ar1, ar2)\<close>: for every element of \<open>ar1\<close>, whether it occurs in \<open>ar2\<close>.\<close>

definition in1d :: "'a list \<Rightarrow> 'a list \<Rightarrow> bool list" where
  "in1d ar1 ar2 = map (\<lambda>x. x \<in> set ar2) ar1"

text \<open>\<open>a[mask]\<close> with a boolean mask of the same length.\<close>

definition mask_select :: "'a list \<Rightarrow> bool list \<Rightarrow> 'a list" where
  "mask_select xs m = map fst (filter snd (zip xs m))"

text \<open>\<open>mask.nonzero()[0]\<close>: the indices at which the mask is true, ascending.\<close>

definition nonzero :: "bool list \<Rightarrow> nat list" where
  "nonzero m = filter (\<lambda>i. m ! i) [0..<length m]"

text \<open>\<open>a[idx]\<close> with an array of (in range) indices.\<close>

definition take_idx :: "'a list \<Rightarrow> nat list \<Rightarrow> 'a list" where
  "take_idx xs idx = map (\<lambda>i. xs ! i) idx"

text \<open>\<open>a[idx] = vs\<close> with an array of indices and as many values.\<close>

definition put_idx :: "'a list \<Rightarrow> nat list \<Rightarrow> 'a list \<Rightarrow> 'a list" where
  "put_idx xs idx vs = fold (\<lambda>(i, v) acc. acc[i := v]) (zip idx vs) xs"

section \<open>Mapping sparse values onto target positions\<close>

text \<open>
  \<open>map_values(values, pos, target_pos, dtype=None, nan=dat.CPG_NAN)\<close>.
  The three leading assertions and the two consistency assertions after the
  membership filter are branches that return \<open>AssertionError\<close>.
\<close>

definition map_values :: "'v list \<Rightarrow> int list \<Rightarrow> int list \<Rightarrow> 'v \<Rightarrow> error + 'v list" where
  "map_values values pos target_pos nan =
    (if length values \<noteq> length pos then Inl AssertionError
     else if pos \<noteq> sort pos then Inl AssertionError
     else if target_pos \<noteq> sort target_pos then Inl AssertionError
     else
       let idx = in1d pos target_pos;
           pos' = mask_select pos idx;
           values' = mask_select values idx;
           target_values = replicate (length target_pos) nan;
           idx' = nonzero (in1d target_pos pos')
       in if length idx' \<noteq> length values' then Inl AssertionError
          else if take_idx target_pos idx' \<noteq> pos' then Inl AssertionError
          else Inr (put_idx target_values idx' values'))"

section \<open>Canonical position table\<close>

text \<open>
  A position table is a pandas frame with the columns \<open>chromo\<close> and \<open>pos\<close>: a list
  of rows. \<open>np.unique\<close> returns the sorted distinct elements.
\<close>

type_synonym pos_table = "(string \<times> int) list"

definition np_unique :: "'a::linorder list \<Rightarrow> 'a list" where
  "np_unique xs = sort (remdups xs)"

text \<open>
  \<open>df.groupby('chromo').apply(lambda df: pd.DataFrame({'pos': np.unique(df['pos'])}))\<close>
  followed by \<open>reset_index\<close> and the column selection: the groups in ascending key
  order, each with its sorted distinct positions.
\<close>

definition groupby_unique :: "pos_table \<Rightarrow> pos_table" where
  "groupby_unique df =
     concat (map (\<lambda>c. map (\<lambda>p. (c, p)) (np_unique (map snd (filter (\<lambda>r. fst r = c) df))))
                 (np_unique (map fst df)))"

text \<open>
  \<open>prepro_pos_table(pos_tables)\<close> takes one table or a list of tables
  (\<open>isinstance(pos_tables, list)\<close>); the loop variable \<open>pos_table\<close> starts as
  \<open>None\<close>, which is also the result for an empty list. \<open>sort_values(['chromo', 'pos'])\<close>
  is the lexicographic sort of the rows.
\<close>

datatype pos_tables_arg = OneTable pos_table | TableList "pos_table list"

fun prepro_loop :: "pos_table option \<Rightarrow> pos_table list \<Rightarrow> pos_table option" where
  "prepro_loop pos_table [] = pos_table"
| "prepro_loop pos_table (next_pos_table # rest) =
     (let concatenated = (case pos_table of None \<Rightarrow> next_pos_table
                          | Some t \<Rightarrow> t @ next_pos_table)
      in prepro_loop (Some (sort (groupby_unique concatenated))) rest)"

definition prepro_pos_table :: "pos_tables_arg \<Rightarrow> pos_table option" where
  "prepro_pos_table pos_tables =
     prepro_loop None (case pos_tables of OneTable t \<Rightarrow> [t] | TableList ts \<Rightarrow> ts)"

text \<open>\<open>pos_table.loc[pos_table.chromo == chromo].pos.values\<close>, as \<open>App.main\<close> reads it.\<close>

definition chromo_positions :: "pos_table \<Rightarrow> string \<Rightarrow> int list" where
  "chromo_positions pos_table chromo = map snd (filter (\<lambda>r. fst r = chromo) pos_table)"

section \<open>Chunking\<close>

text \<open>
  \<open>xs[start:stop]\<close>: a Python slice with step 1, negative bounds counted from the end
  and both bounds clamped to the length.
\<close>

definition py_slice :: "'a list \<Rightarrow> int \<Rightarrow> int \<Rightarrow> 'a list" where
  "py_slice xs start stop =
     (let n = int (length xs);
          norm = (\<lambda>i. if i < 0 then max 0 (n + i) else min i n);
          a = norm start; b = norm stop
      in take (nat (b - a)) (drop (nat a) xs))"

text \<open>
  \<open>a / b\<close> on two Python ints is true division: the exact quotient rounded to the
  nearest IEEE 754 binary64 number, ties to the even significand. \<open>round_half_even\<close>
  is that rounding on a scaled significand.
\<close>

definition round_half_even :: "real \<Rightarrow> int" where
  "round_half_even x =
     (let f = \<lfloor>x\<rfloor>; r = x - of_int f
      in if r < 1 / 2 then f else if 1 / 2 < r then f + 1
         else if even f then f else f + 1)"

text \<open>
  The binary exponent \<open>e\<close> of the quotient of two positive ints,
  \<open>2 ^ e \<le> a / b < 2 ^ (e + 1)\<close>, from the bit lengths of \<open>a\<close> and \<open>b\<close>.
\<close>

definition binary64_exponent :: "nat \<Rightarrow> nat \<Rightarrow> int" where
  "binary64_exponent a b =
     (let d = bitlen (int a) - bitlen (int b)
      in if 2 powi d * real b \<le> real a then d else d - 1)"

text \<open>
  The quotient of two positive ints as a binary64 number: a significand of 53 bits, so
  the unit in the last place is \<open>2 ^ (e - 52)\<close>; exponents below \<open>-1022\<close> are
  subnormal and keep the unit \<open>2 ^ -1074\<close>, so tiny quotients underflow to \<open>0.0\<close>;
  a rounded quotient of \<open>2 ^ 1024\<close> or more is no double, and Python raises
  \<open>OverflowError\<close> (integer division result too large for a float).
\<close>

definition round_binary64 :: "nat \<Rightarrow> nat \<Rightarrow> error + real" where
  "round_binary64 a b =
     (let e = max (binary64_exponent a b) (- 1022);
          ulp = 2 powi (e - 52);
          x = of_int (round_half_even (real a / real b / ulp)) * ulp
      in if 2 ^ 1024 \<le> x then Inl OverflowError else Inr x)"

text \<open>
  \<open>a / b\<close> for Python ints of either sign; \<open>ZeroDivisionError\<close> for a zero
  divisor. Rounding is symmetric in the sign, and a negative zero is the real \<open>0\<close>.
\<close>

definition truediv :: "int \<Rightarrow> int \<Rightarrow> error + real" where
  "truediv a b =
     (if b = 0 then Inl ZeroDivisionError
      else if a = 0 then Inr 0
      else case round_binary64 (nat \<bar>a\<bar>) (nat \<bar>b\<bar>) of
             Inl e \<Rightarrow> Inl e
           | Inr x \<Rightarrow> Inr (if (a < 0) = (b < 0) then x else - x))"

text \<open>
  \<open>nb_chunk = int(np.ceil(len(chromo_pos) / opts.chunk_size))\<close>: the quotient is the
  double of \<open>truediv\<close>; \<open>np.ceil\<close> of a double and \<open>int\<close> of the result are
  exact. \<open>opts.chunk_size\<close> is any int (\<open>type=int\<close>, not validated).
\<close>

definition nb_chunk :: "nat \<Rightarrow> int \<Rightarrow> error + int" where
  "nb_chunk n chunk_size =
     (case truediv (int n) chunk_size of
        Inl e \<Rightarrow> Inl e
      | Inr x \<Rightarrow> Inr \<lceil>x\<rceil>)"

text \<open>
  The chunk loop of \<open>App.main\<close>: \<open>chunk_start\<close> and \<open>chunk_end\<close> of every
  \<open>chunk in range(nb_chunk)\<close> (none when \<open>nb_chunk\<close> is zero or negative); the
  chunk is \<open>chromo_pos[chunk_start:chunk_end]\<close>.
\<close>

definition chunk_bounds :: "nat \<Rightarrow> int \<Rightarrow> error + (int \<times> int) list" where
  "chunk_bounds n chunk_size =
     (case nb_chunk n chunk_size of
        Inl e \<Rightarrow> Inl e
      | Inr k \<Rightarrow> Inr (map (\<lambda>chunk.
          let chunk_start = int chunk * chunk_size;
              chunk_end = min (int n) (chunk_start + chunk_size)
          in (chunk_start, chunk_end)) [0..<nat k]))"

section \<open>DNA sequence windows\<close>

text \<open>
  \<open>str.upper()\<close> on a sequence string, whose characters are ASCII: the letters
  \<open>a\<close> to \<open>z\<close> become \<open>A\<close> to \<open>Z\<close>, every other character stays.
\<close>

definition upper_char :: "char \<Rightarrow> char" where
  "upper_char c = (if CHR ''a'' \<le> c \<and> c \<le> CHR ''z'' then char_of (of_char c - (32::nat)) else c)"

definition upper :: "string \<Rightarrow> string" where
  "upper s = map upper_char s"

text \<open>
  \<open>seq_wins\<close> is an array of \<open>dtype='int8'\<close>: a value stored into it wraps around
  into \<open>-128 .. 127\<close>.
\<close>

definition int8 :: "int \<Rightarrow> int" where
  "int8 v = (v + 128) mod 256 - 128"

text \<open>The results of a loop whose body can raise: the first exception, or all values.\<close>

fun collect :: "('e + 'a) list \<Rightarrow> 'e + 'a list" where
  "collect [] = Inr []"
| "collect (r # rs) =
     (case r of Inl e \<Rightarrow> Inl e
      | Inr x \<Rightarrow> (case collect rs of Inl e \<Rightarrow> Inl e | Inr xs \<Rightarrow> Inr (x # xs)))"

text \<open>
  Modelled from the spec: \<open>dna.char_to_int(win)\<close> of the module \<open>deepcpg.data.dna\<close>
  encodes a window base by base through the table \<open>dna.CHAR_TO_INT\<close>, a dict from the
  upper-case bases and the unknown-base marker \<open>N\<close> to their integer codes. The table is
  a parameter here; a character that is no key of it raises \<open>KeyError\<close>.
\<close>

definition char_to_int :: "(char \<rightharpoonup> int) \<Rightarrow> string \<Rightarrow> error + int list" where
  "char_to_int CHAR_TO_INT seq =
     collect (map (\<lambda>x. case CHAR_TO_INT x of None \<Rightarrow> Inl KeyError | Some v \<Rightarrow> Inr v) (upper seq))"

text \<open>
  \<open>seq_wins[i] = values\<close> for a row of \<open>wlen\<close> cells: numpy takes \<open>wlen\<close> values,
  broadcasts a single value over the row, and raises \<open>ValueError\<close> for any other number
  of values.
\<close>

definition assign_row :: "nat \<Rightarrow> int list \<Rightarrow> error + int list" where
  "assign_row wlen vs =
     (if length vs = wlen then Inr (map int8 vs)
      else if length vs = 1 then Inr (replicate wlen (int8 (hd vs)))
      else Inl ValueError)"

text \<open>
  The body of the loop of \<open>extract_seq_windows\<close> for the 0-based index \<open>p\<close>, on the
  upper-cased sequence: the slice around \<open>p\<close>, padded with \<open>N\<close> on the sides where it
  was cut short, encoded, and stored as row of \<open>seq_wins\<close>. The warning about a missing
  CpG site has no effect on the result.
\<close>

definition seq_window :: "(char \<rightharpoonup> int) \<Rightarrow> string \<Rightarrow> int \<Rightarrow> int \<Rightarrow> error + int list" where
  "seq_window CHAR_TO_INT seq wlen p =
     (let delta = wlen div 2;
          win = py_slice seq (max 0 (p - delta)) (min (int (length seq)) (p + delta + 1))
      in if int (length win) < wlen then
           (let win = replicate (nat (max 0 (delta - p))) CHR ''N'' @ win;
                win = win @ replicate (nat (max 0 (p + delta + 1 - int (length seq)))) CHR ''N''
            in if int (length win) \<noteq> wlen then Inl AssertionError
               else case char_to_int CHAR_TO_INT win of Inl e \<Rightarrow> Inl e
                    | Inr vs \<Rightarrow> assign_row (nat wlen) vs)
         else case char_to_int CHAR_TO_INT win of Inl e \<Rightarrow> Inl e
              | Inr vs \<Rightarrow> assign_row (nat wlen) vs)"

text \<open>
  \<open>seq_wins[idx] = values\<close> for the mask \<open>idx = seq_wins == CHAR_TO_INT['N']\<close>: the
  cells of the mask take the values in row-major order. \<open>fill_row\<close> does one row from
  the \<open>k\<close>-th value on and returns the index of the next unused value.
\<close>

fun fill_row :: "int \<Rightarrow> (nat \<Rightarrow> int) \<Rightarrow> nat \<Rightarrow> int list \<Rightarrow> int list \<times> nat" where
  "fill_row n vals k [] = ([], k)"
| "fill_row n vals k (x # xs) =
     (if x = n then (let (r, k') = fill_row n vals (Suc k) xs in (vals k # r, k'))
      else (let (r, k') = fill_row n vals k xs in (x # r, k')))"

fun fill_rows :: "int \<Rightarrow> (nat \<Rightarrow> int) \<Rightarrow> nat \<Rightarrow> int list list \<Rightarrow> int list list" where
  "fill_rows n vals k [] = []"
| "fill_rows n vals k (row # rows) =
     (let (r, k') = fill_row n vals k row in r # fill_rows n vals k' rows)"

text \<open>
  \<open>np.random.randint(low, high, size)\<close>: the \<open>j\<close>-th of the drawn values, each in
  \<open>low ..< high\<close>. The random generator is a stream \<open>draws\<close> of naturals.
\<close>

definition randint :: "(nat \<Rightarrow> nat) \<Rightarrow> int \<Rightarrow> int \<Rightarrow> nat \<Rightarrow> int" where
  "randint draws low high j = low + int (draws j) mod (high - low)"

text \<open>
  \<open>extract_seq_windows(seq, pos, wlen, seq_index, assert_cpg)\<close>. \<open>np.zeros\<close> raises
  \<open>ValueError\<close> for a negative \<open>wlen\<close>, \<open>seq_wins.max()\<close> raises \<open>ValueError\<close> for
  an array without cells, and a column index outside the row raises \<open>IndexError\<close>.
\<close>

definition extract_seq_windows ::
  "(char \<rightharpoonup> int) \<Rightarrow> (nat \<Rightarrow> nat) \<Rightarrow> string \<Rightarrow> int list \<Rightarrow> int \<Rightarrow> int \<Rightarrow> bool
     \<Rightarrow> error + int list list" where
  "extract_seq_windows CHAR_TO_INT draws seq pos wlen seq_index assert_cpg =
     (if wlen < 0 then Inl ValueError
      else
        let delta = wlen div 2;
            seq = upper seq
        in case collect (map (\<lambda>pos_i. seq_window CHAR_TO_INT seq wlen (pos_i - seq_index)) pos) of
             Inl e \<Rightarrow> Inl e
           | Inr seq_wins \<Rightarrow>
               (case CHAR_TO_INT CHR ''N'' of
                  None \<Rightarrow> Inl KeyError
                | Some n \<Rightarrow>
                    let seq_wins = fill_rows n (randint draws 0 4) 0 seq_wins
                    in if concat seq_wins = [] then Inl ValueError
                       else if \<not> (\<forall>v\<in>set (concat seq_wins). v < 4) then Inl AssertionError
                       else if assert_cpg then
                         (if wlen = 0 then Inl IndexError
                          else if \<not> (\<forall>row\<in>set seq_wins. row ! nat delta = 3)
                            then Inl AssertionError
                          else if wlen \<le> delta + 1 then Inl IndexError
                          else if \<not> (\<forall>row\<in>set seq_wins. row ! nat (delta + 1) = 2)
                            then Inl AssertionError
                          else Inr seq_wins)
                       else Inr seq_wins))"

text \<open>
  A table for concrete windows: the four bases onto \<open>0 .. 3\<close>, with the codes \<open>3\<close> for
  \<open>C\<close> and \<open>2\<close> for \<open>G\<close> that the \<open>assert_cpg\<close> branch checks, and \<open>4\<close> for the
  unknown base.
\<close>

definition base_codes :: "char \<rightharpoonup> int" where
  "base_codes = [CHR ''A'' \<mapsto> 0, CHR ''T'' \<mapsto> 1, CHR ''G'' \<mapsto> 2, CHR ''C'' \<mapsto> 3, CHR ''N'' \<mapsto> 4]"

text \<open>
  The relation between a cell before and after the imputation: a cell that holds the
  code of the unknown base gets one of the drawn values, every other cell is unchanged.
\<close>

definition imputed :: "int \<Rightarrow> (nat \<Rightarrow> int) \<Rightarrow> int \<Rightarrow> int \<Rightarrow> bool" where
  "imputed n vals x y = (if x = n then (\<exists>j. y = vals j) else y = x)"

text \<open>
  The character at column \<open>j\<close> of the window of radius \<open>d\<close> around the 0-based
  index \<open>p\<close>: the base of the sequence there, or the unknown-base marker \<open>N\<close> outside
  the sequence.
\<close>

definition win_char :: "string \<Rightarrow> nat \<Rightarrow> nat \<Rightarrow> nat \<Rightarrow> char" where
  "win_char s d p j = (if d \<le> p + j \<and> p + j - d < length s then s ! (p + j - d) else CHR ''N'')"

section \<open>Command-line options and the argument check\<close>

text \<open>
  The options that \<open>create_parser\<close> declares, as \<open>parse_args\<close> returns them: an option
  without a default is \<open>None\<close> when it is not given; \<open>nargs='+'\<close> makes a list;
  \<open>type=int\<close> accepts every integer.
\<close>

record opts =
  opts_pos_file :: "string option"
  opts_cpg_profiles :: "string list option"
  opts_cpg_wlen :: "int option"
  opts_cpg_cov :: int
  opts_bulk_profiles :: "string list option"
  opts_dna_db :: "string option"
  opts_dna_wlen :: int
  opts_anno_files :: "string list option"
  opts_out_dir :: string
  opts_stats :: "string list option"
  opts_stats_cov :: int
  opts_win_stats :: "string list option"
  opts_win_stats_wlen :: "int list"
  opts_chromos :: "string list option"
  opts_nb_sample :: "int option"
  opts_chunk_size :: int
  opts_verbose :: bool
  opts_log_file :: "string option"

text \<open>The options of a call without arguments: the defaults of \<open>create_parser\<close>.\<close>

definition default_opts :: opts where
  "default_opts = \<lparr>
     opts_pos_file = None, opts_cpg_profiles = None, opts_cpg_wlen = None, opts_cpg_cov = 1,
     opts_bulk_profiles = None, opts_dna_db = None, opts_dna_wlen = 1001,
     opts_anno_files = None, opts_out_dir = ''.'', opts_stats = None, opts_stats_cov = 1,
     opts_win_stats = None, opts_win_stats_wlen = [3001], opts_chromos = None,
     opts_nb_sample = None, opts_chunk_size = 32768, opts_verbose = False,
     opts_log_file = None \<rparr>"


definition truthy_list :: "'a list option \<Rightarrow> bool" where
  "truthy_list l = (case l of None \<Rightarrow> False | Some xs \<Rightarrow> xs \<noteq> [])"





section \<open>Per-chromosome outputs and the coverage filter\<close>

text \<open>Sequencing of two steps of which the first can raise.\<close>

definition and_then :: "'e + 'a \<Rightarrow> ('a \<Rightarrow> 'e + 'b) \<Rightarrow> 'e + 'b" where
  "and_then r f = (case r of Inl e \<Rightarrow> Inl e | Inr x \<Rightarrow> f x)"

text \<open>
  A CpG table, as \<open>read_cpg_profiles\<close> returns it for one file, is a pandas frame with the
  columns \<open>chromo\<close>, \<open>pos\<close> and \<open>value\<close>: a list of rows. \<open>outputs\<close> is the dict of
  \<open>App.main\<close> with the optional keys \<open>'cpg'\<close> and \<open>'bulk'\<close>, each an ordered dict from
  the name of a profile to its table: an association list.
\<close>

type_synonym 'v cpg_table = "(string \<times> int \<times> 'v) list"

record 'v outputs =
  outputs_cpg :: "(string \<times> 'v cpg_table) list option"
  outputs_bulk :: "(string \<times> 'v cpg_table) list option"

text \<open>
  \<open>map_cpg_tables(cpg_tables, chromo, chromo_pos)\<close> for a sorted \<open>chromo_pos\<close> (its
  \<open>chromo_pos.sort()\<close> sorts the array of the caller in place, which \<open>chromo_body\<close>
  below does before the call): of every table the rows of the chromosome, sorted by
  position, are mapped onto \<open>chromo_pos\<close>.
\<close>

definition map_cpg_tables ::
  "(string \<times> 'v cpg_table) list \<Rightarrow> string \<Rightarrow> int list \<Rightarrow> 'v \<Rightarrow> error + (string \<times> 'v list) list" where
  "map_cpg_tables cpg_tables chromo chromo_pos nan =
     collect (map (\<lambda>(name, cpg_table).
        let cpg_table = filter (\<lambda>(c, p, v). c = chromo) cpg_table;
            cpg_table = sort_key (\<lambda>(c, p, v). p) cpg_table
        in case map_values (map (\<lambda>(c, p, v). v) cpg_table) (map (\<lambda>(c, p, v). p) cpg_table)
                  chromo_pos nan of
             Inl e \<Rightarrow> Inl e
           | Inr mapped_table \<Rightarrow>
               if length mapped_table \<noteq> length chromo_pos then Inl AssertionError
               else Inr (name, mapped_table)) cpg_tables)"

text \<open>
  \<open>np.vstack(arrays).T\<close> for one-dimensional arrays: one row per position, one column
  per array. \<open>np.vstack\<close> raises \<open>ValueError\<close> for an empty list and for arrays of
  different lengths.
\<close>

definition vstack_T :: "'v list list \<Rightarrow> error + 'v list list" where
  "vstack_T arrays =
     (if arrays = [] then Inl ValueError
      else if \<exists>a\<in>set arrays. length a \<noteq> length (hd arrays) then Inl ValueError
      else Inr (map (\<lambda>i. map (\<lambda>a. a ! i) arrays) [0..<length (hd arrays)]))"

text \<open>
  \<open>chromo_outputs\<close>, the dict of one chromosome, with the optional keys \<open>'cpg'\<close> (a dict
  from names to arrays), \<open>'cpg_mat'\<close> (the matrix of these arrays, a row per position)
  and \<open>'bulk'\<close>.
\<close>

record 'v chromo_outputs =
  chromo_cpg :: "(string \<times> 'v list) list option"
  chromo_cpg_mat :: "'v list list option"
  chromo_bulk :: "(string \<times> 'v list) list option"

text \<open>The making of \<open>chromo_outputs\<close> in the chromosome loop of \<open>App.main\<close>.\<close>

definition chromo_outputs_of ::
  "'v \<Rightarrow> 'v outputs \<Rightarrow> string \<Rightarrow> int list \<Rightarrow> error + 'v chromo_outputs" where
  "chromo_outputs_of nan outputs chromo chromo_pos =
     and_then
       (case outputs_cpg outputs of
          None \<Rightarrow> Inr (None, None)
        | Some cpg_tables \<Rightarrow>
            and_then (map_cpg_tables cpg_tables chromo chromo_pos nan) (\<lambda>cpg.
            and_then (vstack_T (map snd cpg)) (\<lambda>cpg_mat.
              if length cpg_mat \<noteq> length chromo_pos then Inl AssertionError
              else Inr (Some cpg, Some cpg_mat))))
       (\<lambda>(cpg, cpg_mat).
     and_then
       (case outputs_bulk outputs of
          None \<Rightarrow> Inr None
        | Some bulk_tables \<Rightarrow>
            and_then (map_cpg_tables bulk_tables chromo chromo_pos nan) (\<lambda>bulk. Inr (Some bulk)))
       (\<lambda>bulk.
     Inr \<lparr> chromo_cpg = cpg, chromo_cpg_mat = cpg_mat, chromo_bulk = bulk \<rparr>))"

text \<open>
  \<open>select_dict(data, idx)\<close> with a boolean mask: every array of the dict, also inside
  the dict \<open>'cpg'\<close>, and every row of the matrix is kept where the mask is true.
\<close>

definition select_dict :: "'v chromo_outputs \<Rightarrow> bool list \<Rightarrow> 'v chromo_outputs" where
  "select_dict data idx =
     \<lparr> chromo_cpg = map_option (map (\<lambda>(key, val). (key, mask_select val idx))) (chromo_cpg data),
       chromo_cpg_mat = map_option (\<lambda>val. mask_select val idx) (chromo_cpg_mat data),
       chromo_bulk = map_option (map (\<lambda>(key, val). (key, mask_select val idx))) (chromo_bulk data) \<rparr>"

text \<open>One entry of \<open>cov = np.sum(cpg_mat != CPG_NAN, axis=1)\<close>: the observed cells of a row.\<close>

definition coverage :: "'v \<Rightarrow> 'v list \<Rightarrow> nat" where
  "coverage nan row = length (filter (\<lambda>v. v \<noteq> nan) row)"

text \<open>
  The body of the chromosome loop up to the coverage filter; \<open>rest\<close> is the remainder of
  the body (the DNA, the annotations and the chunks), which gets the chromosome, its
  positions and its outputs and returns the shards it has written. \<open>continue\<close> ends the
  body without a shard. \<open>dat.CPG_NAN\<close> is the parameter \<open>nan\<close>.
\<close>

definition chromo_body ::
  "'v \<Rightarrow> opts \<Rightarrow> 'v outputs \<Rightarrow> pos_table \<Rightarrow>
   (string \<Rightarrow> int list \<Rightarrow> 'v chromo_outputs \<Rightarrow> error + 'r list) \<Rightarrow> string \<Rightarrow> error + 'r list" where
  "chromo_body nan opts outputs pos_table rest chromo =
     (let chromo_pos = chromo_positions pos_table chromo;
          chromo_pos = (if outputs_cpg outputs \<noteq> None \<or> outputs_bulk outputs \<noteq> None
                        then sort chromo_pos else chromo_pos)
      in and_then (chromo_outputs_of nan outputs chromo chromo_pos) (\<lambda>chromo_outputs.
           case chromo_cpg_mat chromo_outputs of
             None \<Rightarrow> rest chromo chromo_pos chromo_outputs
           | Some cpg_mat \<Rightarrow>
               if opts_cpg_cov opts = 0 then rest chromo chromo_pos chromo_outputs
               else
                 let cov = map (coverage nan) cpg_mat
                 in if \<not> (\<forall>c\<in>set cov. 1 \<le> c) then Inl AssertionError
                    else
                      let idx = map (\<lambda>c. opts_cpg_cov opts \<le> int c) cov
                      in if length (filter id idx) = 0 then Inr []
                         else rest chromo (mask_select chromo_pos idx)
                                (select_dict chromo_outputs idx)))"

text \<open>\<open>pos_table.chromo.unique()\<close>: the chromosomes in the order of their first rows.\<close>

definition unique :: "'a list \<Rightarrow> 'a list" where
  "unique xs = rev (remdups (rev xs))"

text \<open>
  The chromosome loop of \<open>App.main\<close>: the shards of all chromosomes in order, or the
  first exception.
\<close>

definition chromo_loop ::
  "'v \<Rightarrow> opts \<Rightarrow> 'v outputs \<Rightarrow> pos_table \<Rightarrow>
   (string \<Rightarrow> int list \<Rightarrow> 'v chromo_outputs \<Rightarrow> error + 'r list) \<Rightarrow> error + 'r list" where
  "chromo_loop nan opts outputs pos_table rest =
     and_then (collect (map (chromo_body nan opts outputs pos_table rest)
                          (unique (map fst pos_table))))
       (\<lambda>shards. Inr (concat shards))"


section \<open>Per-site statistics\<close>

text \<open>The two types of a statistic that \<open>get_stats_meta\<close> gives out.\<close>

datatype dtype = np_int8 | np_float32

text \<open>
  \<open>get_stats_meta(names)\<close>: an ordered dict from the name of a statistic to its function
  and its type; a name that is given twice keeps its first place. The function
  \<open>stats.get(name)\<close> of the module \<open>deepcpg.data.stats\<close> is the parameter \<open>stats_get\<close>.
\<close>

definition get_stats_meta :: "(string \<Rightarrow> 'f) \<Rightarrow> string list \<Rightarrow> (string \<times> 'f \<times> dtype) list" where
  "get_stats_meta stats_get names =
     map (\<lambda>name. (name, stats_get name,
                   if name \<in> set [''mode'', ''cat_var'', ''cat2_var'', ''diff'']
                   then np_int8 else np_float32))
       (unique names)"

text \<open>
  \<open>np.ma.masked_values(x, value)\<close> on a matrix of integers: the data and the mask of the
  entries equal to \<open>value\<close>. With \<open>shrink=True\<close>, the default, a mask without a true
  entry collapses to \<open>nomask\<close>, the scalar \<open>False\<close>: \<open>None\<close> here.
\<close>

definition masked_values :: "int list list \<Rightarrow> int \<Rightarrow> int list list \<times> bool list list option" where
  "masked_values x value =
     (let mask = map (map (\<lambda>v. v = value)) x
      in (x, if \<exists>row\<in>set mask. \<exists>b\<in>set row. b then Some mask else None))"

text \<open>
  The per-site statistics of a chunk in \<open>App.main\<close>, for the matrix \<open>cpg_mat\<close> of the
  chunk and \<open>nb_pos = len(chunk_pos)\<close>; the result is the datasets of the group
  \<open>outputs\<close> that are written, each with its path, type and data. The single-cell values
  are integers. \<open>np.sum(~cpg_mat.mask, axis=1)\<close> needs a mask with two axes: for
  \<open>nomask\<close> numpy raises \<open>AxisError\<close>, a \<open>ValueError\<close>.

  Modelled from the spec: a statistic function reduces, for every position, the row of
  the per-cell values with the masked entries left out; \<open>stats_get name\<close> is that
  reduction of one row, with the cast to the type of the statistic.
\<close>

definition cpg_stats ::
  "(string \<Rightarrow> int list \<Rightarrow> real) \<Rightarrow> int \<Rightarrow> opts \<Rightarrow> int list list \<Rightarrow> nat
     \<Rightarrow> error + (string \<times> dtype \<times> real list) list" where
  "cpg_stats stats_get nan opts cpg_mat nb_pos =
     (case (if truthy_list (opts_stats opts)
            then Some (get_stats_meta stats_get (the (opts_stats opts))) else None) of
        None \<Rightarrow> Inr []
      | Some cpg_stats_meta \<Rightarrow>
          (case masked_values cpg_mat nan of
             (data, None) \<Rightarrow> Inl ValueError
           | (data, Some m) \<Rightarrow>
               let mask = map (\<lambda>mrow. int (length (filter Not mrow)) < opts_stats_cov opts) m
               in collect (map (\<lambda>(name, fun, dtype).
                    let stat = map (\<lambda>(row, mrow). fun (mask_select row (map Not mrow)))
                                 (zip data m);
                        stat = map (\<lambda>(s, b). if b then of_int nan else s) (zip stat mask)
                    in if length stat \<noteq> nb_pos then Inl AssertionError
                       else Inr (''stats/'' @ name, dtype, stat)) cpg_stats_meta)))"

text \<open>A statistic for concrete chunks: under every name, the mean of the values.\<close>

definition mean_of :: "string \<Rightarrow> int list \<Rightarrow> real" where
  "mean_of name vs = (if vs = [] then 0 else real_of_int (sum_list vs) / real (length vs))"

section \<open>Per-window statistics: the datasets that are written\<close>





section \<open>Verified properties\<close>

subsection \<open>Array primitives\<close>

lemma mask_select_map:
  "length xs = length ys \<Longrightarrow>
   mask_select xs (map P ys) = map fst (filter (\<lambda>(x, y). P y) (zip xs ys))"
proof (induction xs ys rule: list_induct2)
  case Nil
  then show ?case by (simp add: mask_select_def)
next
  case (Cons x xs y ys)
  then show ?case by (simp add: mask_select_def)
qed

lemma mask_select_self: "mask_select xs (map P xs) = filter P xs"
  by (induction xs) (simp_all add: mask_select_def)

lemma take_idx_nonzero: "take_idx xs (nonzero (map P xs)) = filter P xs"
proof -
  have "filter P xs = filter P (map (\<lambda>i. xs ! i) [0..<length xs])"
    by (simp add: map_nth)
  also have "\<dots> = map (\<lambda>i. xs ! i) (filter (\<lambda>i. P (xs ! i)) [0..<length xs])"
    by (simp add: filter_map comp_def)
  also have "filter (\<lambda>i. P (xs ! i)) [0..<length xs] = nonzero (map P xs)"
    unfolding nonzero_def by (rule filter_cong) simp_all
  finally show ?thesis by (simp add: take_idx_def)
qed

lemma set_nonzero: "set (nonzero (map P xs)) = {i. i < length xs \<and> P (xs ! i)}"
  by (auto simp: nonzero_def)

lemma distinct_nonzero: "distinct (nonzero m)"
  by (simp add: nonzero_def)

lemma put_idx_Nil [simp]: "put_idx xs [] vs = xs" "put_idx xs idx [] = xs"
  by (simp_all add: put_idx_def)

lemma put_idx_Cons [simp]: "put_idx xs (i # idx) (v # vs) = put_idx (xs[i := v]) idx vs"
  by (simp add: put_idx_def)

lemma length_put_idx [simp]: "length (put_idx xs idx vs) = length xs"
proof (induction idx arbitrary: xs vs)
  case Nil
  then show ?case by simp
next
  case (Cons i idx)
  then show ?case by (cases vs) simp_all
qed

lemma put_idx_nth_other: "i \<notin> set idx \<Longrightarrow> put_idx xs idx vs ! i = xs ! i"
proof (induction idx arbitrary: xs vs)
  case Nil
  then show ?case by simp
next
  case (Cons j idx)
  then show ?case by (cases vs) simp_all
qed

lemma put_idx_nth_hit:
  "distinct idx \<Longrightarrow> length idx = length vs \<Longrightarrow> k < length idx \<Longrightarrow>
   idx ! k < length xs \<Longrightarrow> put_idx xs idx vs ! (idx ! k) = vs ! k"
proof (induction idx arbitrary: xs vs k)
  case Nil
  then show ?case by simp
next
  case (Cons j idx)
  then obtain v vs' where vs: "vs = v # vs'" by (cases vs) auto
  show ?case
  proof (cases k)
    case 0
    with Cons.prems vs show ?thesis by (simp add: put_idx_nth_other)
  next
    case (Suc k')
    with Cons.prems vs Cons.IH[of vs' k' "xs[j := v]"] show ?thesis by simp
  qed
qed

subsection \<open>\<open>map_values\<close>\<close>

lemma sort_eq_iff: "(xs = sort xs) = sorted xs"
  by (metis sorted_sort sorted_sort_id)

lemma map_values_unfold:
  "map_values values pos target_pos nan =
    (if length values \<noteq> length pos \<or> \<not> sorted pos \<or> \<not> sorted target_pos
     then Inl AssertionError
     else
       let pos' = filter (\<lambda>p. p \<in> set target_pos) pos;
           zp = filter (\<lambda>(v, p). p \<in> set target_pos) (zip values pos);
           idx' = nonzero (in1d target_pos pos')
       in if length idx' \<noteq> length zp \<or> filter (\<lambda>x. x \<in> set pos') target_pos \<noteq> pos'
          then Inl AssertionError
          else Inr (put_idx (replicate (length target_pos) nan) idx' (map fst zp)))"
  by (simp add: map_values_def sort_eq_iff Let_def in1d_def mask_select_self
      mask_select_map take_idx_nonzero)


lemma map_values_Inr:
  assumes "map_values values pos target_pos nan = Inr out"
  shows "length out = length target_pos \<and>
    (\<forall>i<length target_pos.
       (target_pos ! i \<in> set pos \<longrightarrow>
          (\<exists>j<length pos. pos ! j = target_pos ! i \<and> out ! i = values ! j)) \<and>
       (target_pos ! i \<notin> set pos \<longrightarrow> out ! i = nan))"
proof -
  define pos' where "pos' = filter (\<lambda>p. p \<in> set target_pos) pos"
  define zp where "zp = filter (\<lambda>(v, p). p \<in> set target_pos) (zip values pos)"
  define idx' where "idx' = nonzero (in1d target_pos pos')"
  have c: "\<not> (length values \<noteq> length pos \<or> \<not> sorted pos \<or> \<not> sorted target_pos)"
    using assms unfolding map_values_unfold by (meson Inl_Inr_False)
  then have len: "length values = length pos" by simp
  have r: "(if length idx' \<noteq> length zp \<or> filter (\<lambda>x. x \<in> set pos') target_pos \<noteq> pos'
          then Inl AssertionError
          else Inr (put_idx (replicate (length target_pos) nan) idx' (map fst zp))) = Inr out"
    using assms c unfolding map_values_unfold Let_def pos'_def zp_def idx'_def by simp
  then have c': "\<not> (length idx' \<noteq> length zp \<or> filter (\<lambda>x. x \<in> set pos') target_pos \<noteq> pos')"
    by (meson Inl_Inr_False)
  with r have out: "out = put_idx (replicate (length target_pos) nan) idx' (map fst zp)"
    by simp
  from c' have l: "length idx' = length zp" by simp
  have t: "take_idx target_pos idx' = pos'"
    using c' by (simp add: idx'_def in1d_def take_idx_nonzero)
  have "map snd zp = filter (\<lambda>p. p \<in> set target_pos) (map snd (zip values pos))"
    by (simp add: zp_def filter_map comp_def case_prod_unfold)
  then have pz: "map snd zp = pos'" using len by (simp add: pos'_def)
  have idx_set: "set idx' = {i. i < length target_pos \<and> target_pos ! i \<in> set pos}"
    unfolding idx'_def in1d_def set_nonzero pos'_def by auto
  have dist: "distinct idx'" by (simp add: idx'_def distinct_nonzero)
  have "length out = length target_pos" by (simp add: out)
  moreover have "\<exists>j<length pos. pos ! j = target_pos ! i \<and> out ! i = values ! j"
    if i: "i < length target_pos" and m: "target_pos ! i \<in> set pos" for i
  proof -
    from i m idx_set have "i \<in> set idx'" by simp
    then obtain k where k: "k < length idx'" "idx' ! k = i"
      by (auto simp: in_set_conv_nth)
    have "put_idx (replicate (length target_pos) nan) idx' (map fst zp) ! (idx' ! k) = map fst zp ! k"
      using dist l k i by (intro put_idx_nth_hit) simp_all
    then have o: "out ! i = fst (zp ! k)" using k l by (simp add: out)
    have "take_idx target_pos idx' ! k = target_pos ! i"
      using k by (simp add: take_idx_def)
    then have "map snd zp ! k = target_pos ! i" using t pz by simp
    then have p: "snd (zp ! k) = target_pos ! i" using k l by simp
    have "set zp \<subseteq> set (zip values pos)" by (auto simp: zp_def)
    moreover have "zp ! k \<in> set zp" using k l by simp
    ultimately have "zp ! k \<in> set (zip values pos)" by blast
    then obtain j where "j < length pos" "values ! j = fst (zp ! k)" "pos ! j = snd (zp ! k)"
      using len by (auto simp: in_set_zip)
    with o p show ?thesis by auto
  qed
  moreover have "out ! i = nan"
    if i: "i < length target_pos" and m: "target_pos ! i \<notin> set pos" for i
  proof -
    from m idx_set have "i \<notin> set idx'" by simp
    then show ?thesis using i by (simp add: out put_idx_nth_other)
  qed
  ultimately show ?thesis by blast
qed


lemma map_values_total:
  assumes "length values = length pos" "sorted pos" "distinct pos"
    "sorted target_pos" "distinct target_pos"
  shows "\<exists>out. map_values values pos target_pos nan = Inr out"
proof -
  define pos' where "pos' = filter (\<lambda>p. p \<in> set target_pos) pos"
  define zp where "zp = filter (\<lambda>(v, p). p \<in> set target_pos) (zip values pos)"
  define idx' where "idx' = nonzero (in1d target_pos pos')"
  have "map snd zp = filter (\<lambda>p. p \<in> set target_pos) (map snd (zip values pos))"
    by (simp add: zp_def filter_map comp_def case_prod_unfold)
  then have pz: "map snd zp = pos'" using assms(1) by (simp add: pos'_def)
  have "filter (\<lambda>x. x \<in> set pos') target_pos = pos'"
  proof (rule sorted_distinct_set_unique)
    show "set (filter (\<lambda>x. x \<in> set pos') target_pos) = set pos'"
      by (auto simp: pos'_def)
    show "sorted (filter (\<lambda>x. x \<in> set pos') target_pos)"
      using assms(4) by (rule sorted_wrt_filter)
    show "sorted pos'" unfolding pos'_def using assms(2) by (rule sorted_wrt_filter)
    show "distinct (filter (\<lambda>x. x \<in> set pos') target_pos)"
      using assms(5) by simp
    show "distinct pos'" unfolding pos'_def using assms(3) by simp
  qed
  then have f: "filter (\<lambda>x. x \<in> set pos') target_pos = pos'" .
  have "take_idx target_pos idx' = pos'"
    using f by (simp add: idx'_def in1d_def take_idx_nonzero)
  then have "length idx' = length pos'"
    unfolding take_idx_def by (metis length_map)
  also have "\<dots> = length zp" using pz by (metis length_map)
  finally have l: "length idx' = length zp" .
  show ?thesis
    unfolding map_values_unfold Let_def
    using assms(1,2,4) f l unfolding pos'_def zp_def idx'_def by simp
qed

text \<open>
  Claim C1 (amended). For a sparse series with as many values as positions, with the
  positions and the target positions sorted ascending: whenever \<open>map_values\<close> returns
  an array, its length is that of the target array, every target position that occurs
  among the source positions carries the value of a source entry at that position, and
  every other target position carries the \<open>nan\<close> sentinel; and it does return an
  array when both position arrays are moreover duplicate-free (strictly increasing).
\<close>

theorem map_values_correct:
  assumes "length values = length pos" "sorted pos" "sorted target_pos"
  shows "(distinct pos \<and> distinct target_pos \<longrightarrow>
            (\<exists>out. map_values values pos target_pos nan = Inr out)) \<and>
         (\<forall>out. map_values values pos target_pos nan = Inr out \<longrightarrow>
            length out = length target_pos \<and>
            (\<forall>i<length target_pos.
               (target_pos ! i \<in> set pos \<longrightarrow>
                  (\<exists>j<length pos. pos ! j = target_pos ! i \<and> out ! i = values ! j)) \<and>
               (target_pos ! i \<notin> set pos \<longrightarrow> out ! i = nan)))"
proof (rule conjI)
  show "distinct pos \<and> distinct target_pos \<longrightarrow>
      (\<exists>out. map_values values pos target_pos nan = Inr out)"
    using assms by (simp add: map_values_total)
  show "\<forall>out. map_values values pos target_pos nan = Inr out \<longrightarrow>
            length out = length target_pos \<and>
            (\<forall>i<length target_pos.
               (target_pos ! i \<in> set pos \<longrightarrow>
                  (\<exists>j<length pos. pos ! j = target_pos ! i \<and> out ! i = values ! j)) \<and>
               (target_pos ! i \<notin> set pos \<longrightarrow> out ! i = nan))"
  proof (rule allI, rule impI)
    fix out
    assume "map_values values pos target_pos nan = Inr out"
    then show "length out = length target_pos \<and>
            (\<forall>i<length target_pos.
               (target_pos ! i \<in> set pos \<longrightarrow>
                  (\<exists>j<length pos. pos ! j = target_pos ! i \<and> out ! i = values ! j)) \<and>
               (target_pos ! i \<notin> set pos \<longrightarrow> out ! i = nan))"
      by (rule map_values_Inr)
  qed
qed

text \<open>The hypotheses of \<open>map_values_correct\<close> at a concrete series.\<close>

theorem map_values_correct_witness:
  "length [1, 0, 1 :: int] = length [10, 20, 30 :: int] \<and> sorted [10, 20, 30 :: int] \<and>
   sorted [10, 15, 30, 40 :: int] \<and> distinct [10, 20, 30 :: int] \<and>
   distinct [10, 15, 30, 40 :: int] \<and>
   (\<exists>out. map_values [1, 0, 1 :: int] [10, 20, 30] [10, 15, 30, 40] (- 1) = Inr out \<and>
      length out = 4)"
proof -
  have h: "length [1, 0, 1 :: int] = length [10, 20, 30 :: int]" "sorted [10, 20, 30 :: int]"
    "sorted [10, 15, 30, 40 :: int]" by simp_all
  have d: "distinct [10, 20, 30 :: int] \<and> distinct [10, 15, 30, 40 :: int]" by simp
  from map_values_correct [OF h, of "- 1"] d
  obtain out where o: "map_values [1, 0, 1 :: int] [10, 20, 30] [10, 15, 30, 40] (- 1) = Inr out"
    by blast
  with map_values_correct [OF h, of "- 1"] have "length out = length [10, 15, 30, 40 :: int]"
    by blast
  with o h d show ?thesis by simp
qed

text \<open>
  Claim C1 as stated fails: sorted positions may repeat, and then the consistency
  assertion after the membership filter fires instead of an array being returned.
\<close>

theorem map_values_duplicates_counterexample:
  "length [0, 1 :: int] = length [5, 5 :: int] \<and> sorted [5, 5 :: int] \<and> sorted [5 :: int] \<and>
   map_values [0, 1 :: int] [5, 5] [5] (- 1) = Inl AssertionError"
  by code_simp

subsection \<open>\<open>prepro_pos_table\<close>\<close>

lemma set_np_unique [simp]: "set (np_unique xs) = set xs"
  by (simp add: np_unique_def)

lemma distinct_np_unique [simp]: "distinct (np_unique xs)"
  by (simp add: np_unique_def)

lemma sorted_np_unique [simp]: "sorted (np_unique xs)"
  by (simp add: np_unique_def)

lemma set_groupby_unique [simp]: "set (groupby_unique df) = set df"
  unfolding groupby_unique_def by force

lemma distinct_keyed_concat:
  "distinct cs \<Longrightarrow> (\<And>c. distinct (g c)) \<Longrightarrow>
   distinct (concat (map (\<lambda>c. map (\<lambda>p. (c, p)) (g c)) cs))"
proof (induction cs)
  case Nil
  then show ?case by simp
next
  case (Cons c cs)
  have "inj_on (\<lambda>p. (c, p)) (set (g c))" by (simp add: inj_on_def)
  then have "distinct (map (\<lambda>p. (c, p)) (g c))"
    using Cons.prems(2) by (simp add: distinct_map)
  moreover have "set (map (\<lambda>p. (c, p)) (g c)) \<inter>
      set (concat (map (\<lambda>c. map (\<lambda>p. (c, p)) (g c)) cs)) = {}"
    using Cons.prems(1) by auto
  ultimately show ?case using Cons by simp
qed

lemma distinct_groupby_unique [simp]: "distinct (groupby_unique df)"
  unfolding groupby_unique_def by (rule distinct_keyed_concat) simp_all

lemma strict_sorted_sort_distinct:
  "distinct xs \<Longrightarrow> sorted_wrt (<) (sort xs)"
  by (simp add: strict_sorted_iff)

lemma prepro_loop_Some:
  "\<exists>r. prepro_loop (Some t) ts = Some r \<and>
       (ts \<noteq> [] \<longrightarrow> sorted_wrt (<) r \<and> set r = set t \<union> (\<Union>u\<in>set ts. set u)) \<and>
       (ts = [] \<longrightarrow> r = t)"
proof (induction ts arbitrary: t)
  case Nil
  then show ?case by simp
next
  case (Cons u ts)
  let ?t' = "sort (groupby_unique (t @ u))"
  have s: "sorted_wrt (<) ?t'" by (simp add: strict_sorted_sort_distinct)
  have e: "set ?t' = set t \<union> set u" by simp
  from Cons.IH [of ?t'] obtain r where r: "prepro_loop (Some ?t') ts = Some r"
    "ts \<noteq> [] \<longrightarrow> sorted_wrt (<) r \<and> set r = set ?t' \<union> (\<Union>u\<in>set ts. set u)"
    "ts = [] \<longrightarrow> r = ?t'" by blast
  have "prepro_loop (Some t) (u # ts) = Some r" using r(1) by simp
  moreover have "sorted_wrt (<) r \<and> set r = set t \<union> (\<Union>u\<in>set (u # ts). set u)"
  proof (cases "ts = []")
    case True
    with r(3) s e show ?thesis by simp
  next
    case False
    with r(2) e show ?thesis by auto
  qed
  ultimately show ?case by simp
qed

lemma prepro_loop_None:
  assumes "ts \<noteq> []"
  shows "\<exists>r. prepro_loop None ts = Some r \<and> sorted_wrt (<) r \<and> set r = (\<Union>u\<in>set ts. set u)"
proof -
  from assms obtain u us where ts: "ts = u # us" by (cases ts) auto
  let ?t' = "sort (groupby_unique u)"
  have s: "sorted_wrt (<) ?t'" by (simp add: strict_sorted_sort_distinct)
  from prepro_loop_Some [of ?t' us] obtain r where r: "prepro_loop (Some ?t') us = Some r"
    "us \<noteq> [] \<longrightarrow> sorted_wrt (<) r \<and> set r = set ?t' \<union> (\<Union>u\<in>set us. set u)"
    "us = [] \<longrightarrow> r = ?t'" by blast
  have "prepro_loop None ts = Some r" using r(1) ts by simp
  moreover have "sorted_wrt (<) r \<and> set r = (\<Union>u\<in>set ts. set u)"
  proof (cases "us = []")
    case True
    with r(3) s ts show ?thesis by simp
  next
    case False
    with r(2) ts show ?thesis by auto
  qed
  ultimately show ?thesis by blast
qed

lemma chromo_positions_strict:
  assumes "sorted_wrt (<) (t :: pos_table)"
  shows "sorted_wrt (<) (chromo_positions t c)"
proof -
  have "sorted_wrt (<) (filter (\<lambda>r. fst r = c) t)"
    using assms by (rule sorted_wrt_filter)
  then have "sorted_wrt (\<lambda>x y. snd x < snd y) (filter (\<lambda>r. fst r = c) t)"
  proof (rule sorted_wrt_mono_rel [rotated])
    fix x y :: "string \<times> int"
    assume "x \<in> set (filter (\<lambda>r. fst r = c) t)" "y \<in> set (filter (\<lambda>r. fst r = c) t)" "x < y"
    then show "snd x < snd y" by (auto simp: less_prod_def)
  qed
  then show ?thesis by (simp add: chromo_positions_def sorted_wrt_map)
qed

lemma set_chromo_positions: "set (chromo_positions t c) = {p. (c, p) \<in> set t}"
  by (force simp: chromo_positions_def)

text \<open>
  Claim C7. For every non-empty collection of source position tables, the table built by
  \<open>prepro_pos_table\<close> has, for every chromosome, a position list that is sorted
  ascending, strictly increasing (duplicate-free) and whose elements are exactly the
  coordinates that appear for that chromosome in some input table.
\<close>

theorem prepro_pos_table_union:
  assumes "tables \<noteq> []"
  shows "\<exists>pos_table. prepro_pos_table (TableList tables) = Some pos_table \<and>
     (\<forall>chromo. sorted (chromo_positions pos_table chromo) \<and>
        sorted_wrt (<) (chromo_positions pos_table chromo) \<and>
        set (chromo_positions pos_table chromo) = (\<Union>t\<in>set tables. {p. (chromo, p) \<in> set t}))"
proof -
  from prepro_loop_None [OF assms] obtain r where r: "prepro_loop None tables = Some r"
    "sorted_wrt (<) r" "set r = (\<Union>u\<in>set tables. set u)" by blast
  have "sorted_wrt (<) (chromo_positions r c)" for c
    using r(2) by (rule chromo_positions_strict)
  moreover have "sorted (chromo_positions r c)" for c
    using \<open>sorted_wrt (<) (chromo_positions r c)\<close> by (simp add: strict_sorted_iff)
  moreover have "set (chromo_positions r c) = (\<Union>t\<in>set tables. {p. (c, p) \<in> set t})" for c
    unfolding set_chromo_positions r(3) by auto
  ultimately show ?thesis using r(1) by (simp add: prepro_pos_table_def)
qed


text \<open>The two tables of the end-to-end scenario: positions 10, 20, 30 and 20, 30, 40.\<close>

theorem prepro_pos_table_union_witness:
  "[[(''1'', 10), (''1'', 20), (''1'', 30)], [(''1'', 20), (''1'', 30), (''1'', 40 :: int)]] \<noteq> [] \<and>
   (\<exists>pos_table. prepro_pos_table (TableList
        [[(''1'', 10), (''1'', 20), (''1'', 30)], [(''1'', 20), (''1'', 30), (''1'', 40)]])
        = Some pos_table \<and>
      chromo_positions pos_table ''1'' = [10, 20, 30, 40] \<and>
      sorted_wrt (<) (chromo_positions pos_table ''1''))"
proof -
  have h: "[[(''1'', 10), (''1'', 20), (''1'', 30)], [(''1'', 20), (''1'', 30), (''1'', 40 :: int)]] \<noteq> []"
    by simp
  have e: "prepro_pos_table (TableList
        [[(''1'', 10), (''1'', 20), (''1'', 30)], [(''1'', 20), (''1'', 30), (''1'', 40)]])
      = Some [(''1'', 10), (''1'', 20), (''1'', 30), (''1'', 40)]"
    by code_simp
  have c: "chromo_positions [(''1'', 10), (''1'', 20), (''1'', 30), (''1'', 40)] ''1''
      = [10, 20, 30, 40]"
    by code_simp
  from prepro_pos_table_union [OF h] e
  have "sorted_wrt (<) (chromo_positions [(''1'', 10), (''1'', 20), (''1'', 30), (''1'', 40)] ''1'')"
    by simp
  with h e c show ?thesis by simp
qed

subsection \<open>Chunking\<close>

lemma py_slice_nonneg:
  assumes "0 \<le> a" "a \<le> int (length xs)" "0 \<le> b"
  shows "py_slice xs a b = take (nat (min b (int (length xs)) - a)) (drop (nat a) xs)"
  using assms by (simp add: py_slice_def Let_def min_def)

lemma concat_take_drop:
  "concat (map (\<lambda>k. take c (drop (k * c) xs)) [0..<K]) = take (K * c) xs"
proof (induction K)
  case 0
  then show ?case by simp
next
  case (Suc K)
  have "take (K * c) xs @ take c (drop (K * c) xs) = take (K * c + c) xs"
    by (simp add: take_add)
  with Suc show ?case by (simp add: add.commute)
qed

lemma round_half_even_lower: "x - 1 / 2 \<le> of_int (round_half_even x)"
proof -
  have "x < of_int \<lfloor>x\<rfloor> + 1" "of_int \<lfloor>x\<rfloor> \<le> x" by linarith+
  then show ?thesis by (simp add: round_half_even_def Let_def) linarith
qed

lemma round_half_even_le:
  assumes "x \<le> of_int k"
  shows "round_half_even x \<le> k"
proof (cases "x = of_int k")
  case True
  then show ?thesis by (simp add: round_half_even_def)
next
  case False
  with assms have "x < of_int k" by simp
  then have "\<lfloor>x\<rfloor> < k" by (simp add: floor_less_iff)
  then show ?thesis by (simp add: round_half_even_def Let_def)
qed

lemma binary64_exponent_le:
  assumes "0 < a" "0 < b"
  shows "2 powi binary64_exponent a b * real b \<le> real a"
proof (cases "2 powi (bitlen (int a) - bitlen (int b)) * real b \<le> real a")
  case True
  then show ?thesis by (simp add: binary64_exponent_def Let_def)
next
  case False
  define la where "la = bitlen (int a)"
  define lb where "lb = bitlen (int b)"
  from assms have pa: "0 < int a" and pb: "0 < int b" by simp_all
  have la1: "1 \<le> la" using pa by (simp add: la_def bitlen_alt_def)
  from bitlen_bounds [OF pa] have "(2::int) ^ nat (la - 1) \<le> int a" by (simp add: la_def)
  then have "real_of_int (2 ^ nat (la - 1)) \<le> real_of_int (int a)" by (simp only: of_int_le_iff)
  then have "(2::real) ^ nat (la - 1) \<le> real a" by simp
  then have A: "(2::real) powi (la - 1) \<le> real a" using la1 by (simp add: power_int_def)
  from bitlen_bounds [OF pb] have "int b < 2 ^ nat lb" by (simp add: lb_def)
  then have "real_of_int (int b) < real_of_int (2 ^ nat lb)" by (simp only: of_int_less_iff)
  then have "real b < 2 ^ nat lb" by simp
  moreover have "0 \<le> lb" by (simp add: lb_def bitlen_nonneg)
  ultimately have B: "real b \<le> 2 powi lb" by (simp add: power_int_def)
  have "(2::real) powi (la - lb - 1) = 2 powi ((la - 1) + (- lb))"
    by (simp add: algebra_simps)
  also have "\<dots> = 2 powi (la - 1) * 2 powi (- lb)"
    by (rule power_int_add) simp
  finally have "(2::real) powi (la - lb - 1) * real b = 2 powi (la - 1) * (real b / 2 powi lb)"
    by (simp add: power_int_minus field_simps)
  also have "\<dots> \<le> 2 powi (la - 1) * 1"
    by (rule mult_left_mono) (use B in \<open>simp_all add: field_simps\<close>)
  also have "\<dots> \<le> real a" using A by simp
  finally show ?thesis using False by (simp add: binary64_exponent_def Let_def la_def lb_def)
qed

lemma round_binary64_ceiling:
  assumes a: "0 < a" "a < 2 ^ 53" and b: "0 < b" "b < 2 ^ 1024"
  shows "\<exists>x. round_binary64 a b = Inr x \<and> \<lceil>x\<rceil> = \<lceil>real a / real b\<rceil>"
proof -
  define e0 where "e0 = binary64_exponent a b"
  define e where "e = max e0 (- 1022)"
  define ulp :: real where "ulp = 2 powi (e - 52)"
  define q where "q = real a / real b"
  define M where "M = round_half_even (q / ulp)"
  define x where "x = of_int M * ulp"
  define m where "m = \<lceil>q\<rceil>"
  have rb: "0 < real b" using b(1) by simp
  have ra: "real a < 2 ^ 53" using a(2) by (metis of_nat_less_iff of_nat_numeral of_nat_power)
  have rb2: "real b < 2 ^ 1024" using b(2) by (metis of_nat_less_iff of_nat_numeral of_nat_power)
  have E: "2 powi e0 * real b \<le> real a"
    unfolding e0_def by (rule binary64_exponent_le [OF a(1) b(1)])
  have b1: "1 \<le> real b" using b(1) by simp
  have p0: "(0::real) < 2 powi e0" by simp
  have e52: "e0 \<le> 52"
  proof (rule ccontr)
    assume "\<not> e0 \<le> 52"
    then have "53 \<le> e0" by simp
    then have "(2::real) powi 53 \<le> 2 powi e0" by (intro power_int_increasing) simp_all
    then have "(2::real) ^ 53 \<le> 2 powi e0" by (simp add: power_int_def)
    also have "\<dots> = 2 powi e0 * 1" by simp
    also have "\<dots> \<le> 2 powi e0 * real b" using b1 by (intro mult_left_mono) simp_all
    also have "\<dots> \<le> real a" by (rule E)
    finally show False using ra by simp
  qed
  then have e_le: "e \<le> 52" by (simp add: e_def)
  have up: "0 < ulp" by (simp add: ulp_def)
  define k where "k = nat (52 - e)"
  have ulp_k: "ulp * 2 ^ k = 1"
  proof -
    have "(2::real) powi (e - 52) = inverse (2 powi (52 - e))"
      using power_int_minus [of "2::real" "52 - e"] by simp
    also have "(2::real) powi (52 - e) = 2 ^ k" using e_le by (simp add: power_int_def k_def)
    finally show ?thesis by (simp add: ulp_def)
  qed
  have half: "ulp * real b < 2"
  proof (cases "- 1022 \<le> e0")
    case True
    then have "e = e0" by (simp add: e_def)
    then have "ulp = 2 powi e0 * 2 powi (- 52)"
      using power_int_add [of "2::real" e0 "- 52"] by (simp add: ulp_def)
    then have "ulp * real b = (2 powi e0 * real b) * 2 powi (- 52)" by simp
    also have "\<dots> \<le> real a * 2 powi (- 52)" using E by (intro mult_right_mono) simp_all
    also have "\<dots> < 2 ^ 53 * 2 powi (- 52)" using ra by (intro mult_strict_right_mono) simp_all
    also have "\<dots> = 2" by (simp add: power_int_def power_one_over)
    finally show ?thesis .
  next
    case False
    then have "e = - 1022" by (simp add: e_def)
    then have "ulp = 2 powi (- 1074)" by (simp add: ulp_def)
    then have "ulp * real b = real b * 2 powi (- 1074)" by simp
    also have "\<dots> < 2 ^ 1024 * 2 powi (- 1074)"
      using rb2 by (intro mult_strict_right_mono) simp_all
    also have "\<dots> \<le> 2" by (simp add: power_int_def power_one_over)
    finally show ?thesis .
  qed
  have q_ub: "q \<le> of_int m" unfolding m_def by (rule le_of_int_ceiling)
  have q_lb: "of_int m - 1 + 1 / real b \<le> q"
  proof -
    have "of_int m - 1 < q" unfolding m_def by linarith
    then have "(of_int m - 1) * real b < real a"
      unfolding q_def using rb by (simp add: pos_less_divide_eq)
    then have "real_of_int ((m - 1) * int b) < real_of_int (int a)" by simp
    then have "(m - 1) * int b < int a" by (simp only: of_int_less_iff)
    then have "(m - 1) * int b + 1 \<le> int a" by simp
    then have "real_of_int ((m - 1) * int b + 1) \<le> real_of_int (int a)"
      by (simp only: of_int_le_iff)
    then have "(of_int m - 1) * real b + 1 \<le> real a" by simp
    then have "((of_int m - 1) * real b + 1) / real b \<le> real a / real b"
      using rb by (simp add: divide_right_mono)
    then show ?thesis using rb by (simp add: q_def field_simps)
  qed
  have lower: "of_int m - 1 < x"
  proof -
    have "q / ulp - 1 / 2 \<le> of_int M" unfolding M_def by (rule round_half_even_lower)
    then have "(q / ulp - 1 / 2) * ulp \<le> of_int M * ulp"
      using up by (intro mult_right_mono) simp_all
    moreover have "(q / ulp - 1 / 2) * ulp = q - ulp / 2"
      using up by (simp add: left_diff_distrib)
    ultimately have 1: "q - ulp / 2 \<le> x" by (simp add: x_def)
    have "ulp / 2 < 1 / real b" using half rb by (simp add: field_simps)
    with 1 q_lb show ?thesis by linarith
  qed
  have upper: "x \<le> of_int m"
  proof -
    have "q / ulp = q * 2 ^ k" using ulp_k up by (simp add: field_simps)
    also have "\<dots> \<le> of_int m * 2 ^ k" using q_ub by (intro mult_right_mono) simp_all
    also have "\<dots> = of_int (m * 2 ^ k)" by simp
    finally have "M \<le> m * 2 ^ k" unfolding M_def by (rule round_half_even_le)
    then have "real_of_int M \<le> real_of_int (m * 2 ^ k)" by (simp only: of_int_le_iff)
    then have "of_int M * ulp \<le> of_int (m * 2 ^ k) * ulp"
      using up by (intro mult_right_mono) simp_all
    also have "\<dots> = of_int m * (ulp * 2 ^ k)" by simp
    finally show ?thesis by (simp add: x_def ulp_k)
  qed
  have ceil: "\<lceil>x\<rceil> = m" using lower upper by (intro ceiling_unique) simp_all
  have "real a / real b \<le> real a / 1"
    by (rule divide_left_mono) (use b1 in simp_all)
  then have "q \<le> of_int (int a)" by (simp add: q_def)
  then have "m \<le> int a" unfolding m_def by (simp only: ceiling_le_iff)
  then have "real_of_int m \<le> real a" by (metis of_int_le_iff of_int_of_nat_eq)
  with upper ra have "x < 2 ^ 53" by linarith
  also have "(2::real) ^ 53 \<le> 2 ^ 1024" by (intro power_increasing) simp_all
  finally have "\<not> 2 ^ 1024 \<le> x" by simp
  then have "round_binary64 a b = Inr x"
    by (simp add: round_binary64_def Let_def x_def M_def q_def ulp_def e_def e0_def)
  with ceil show ?thesis by (simp add: m_def q_def)
qed

lemma nb_chunk_exact:
  assumes "0 < c" "c < 2 ^ 1024" "n < 2 ^ 53"
  shows "nb_chunk n c = Inr \<lceil>real n / real_of_int c\<rceil>"
proof (cases "n = 0")
  case True
  with assms(1) show ?thesis by (simp add: nb_chunk_def truediv_def)
next
  case False
  then have n: "0 < n" by simp
  have c: "0 < nat c" using assms(1) by simp
  have "int (nat c) < 2 ^ 1024" using assms(1,2) by simp
  then have c2: "nat c < 2 ^ 1024" by (metis of_nat_less_iff of_nat_numeral of_nat_power)
  from round_binary64_ceiling [OF n assms(3) c c2] obtain x where
    x: "round_binary64 n (nat c) = Inr x" "\<lceil>x\<rceil> = \<lceil>real n / real (nat c)\<rceil>" by blast
  have "real (nat c) = real_of_int c" using assms(1) by simp
  with x n assms(1) show ?thesis by (simp add: nb_chunk_def truediv_def)
qed

lemma nb_chunk_bounds:
  assumes "0 < c"
  shows "int n \<le> \<lceil>real n / real_of_int c\<rceil> * c"
    and "(\<lceil>real n / real_of_int c\<rceil> - 1) * c < int n \<or> n = 0"
    and "0 \<le> \<lceil>real n / real_of_int c\<rceil>"
proof -
  define x where "x = real n / real_of_int c"
  define k where "k = \<lceil>x\<rceil>"
  have c: "0 < real_of_int c" using assms by simp
  have u: "x \<le> of_int k" unfolding k_def by (rule le_of_int_ceiling)
  have l: "of_int k - 1 < x" unfolding k_def by linarith
  from c have "(x \<le> of_int k) = (real n \<le> of_int k * real_of_int c)"
    unfolding x_def by (rule pos_divide_le_eq)
  with u have "real n \<le> of_int k * real_of_int c" by blast
  then have "real_of_int (int n) \<le> real_of_int (k * c)" by simp
  then have 1: "int n \<le> k * c" by (simp only: of_int_le_iff)
  from c have "(of_int k - 1 < x) = ((of_int k - 1) * real_of_int c < real n)"
    unfolding x_def by (rule pos_less_divide_eq)
  with l have "(of_int k - 1) * real_of_int c < real n" by blast
  then have "real_of_int ((k - 1) * c) < real_of_int (int n)" by simp
  then have 2: "(k - 1) * c < int n" by (simp only: of_int_less_iff)
  have "0 \<le> x" unfolding x_def using c by simp
  with u have "(0::real) \<le> of_int k" by linarith
  then have 3: "0 \<le> k" by simp
  from 1 show "int n \<le> \<lceil>real n / real_of_int c\<rceil> * c" by (simp add: k_def x_def)
  from 2 show "(\<lceil>real n / real_of_int c\<rceil> - 1) * c < int n \<or> n = 0" by (simp add: k_def x_def)
  from 3 show "0 \<le> \<lceil>real n / real_of_int c\<rceil>" by (simp add: k_def x_def)
qed

lemma chunk_bounds_positive:
  assumes "0 < c" "c < 2 ^ 1024" "n < 2 ^ 53"
  shows "chunk_bounds n c = Inr (map (\<lambda>chunk. (int chunk * c, min (int n) (int chunk * c + c)))
           [0..<nat \<lceil>real n / real_of_int c\<rceil>])"
  by (simp add: chunk_bounds_def nb_chunk_exact [OF assms] Let_def)

lemma chunk_slice_eq:
  assumes "0 < c" "k < nat \<lceil>real (length xs) / real_of_int c\<rceil>"
  shows "py_slice xs (int k * c) (min (int (length xs)) (int k * c + c)) =
         take (nat c) (drop (k * nat c) xs)"
proof -
  define K where "K = \<lceil>real (length xs) / real_of_int c\<rceil>"
  have K: "(K - 1) * c < int (length xs) \<or> length xs = 0" "0 \<le> K"
    using nb_chunk_bounds [OF assms(1), of "length xs"] by (simp_all add: K_def)
  from assms(2) have kK: "int k \<le> K - 1" unfolding K_def by linarith
  then have "int k * c \<le> (K - 1) * c" using assms(1) by (simp add: mult_right_mono)
  moreover have "length xs \<noteq> 0"
  proof
    assume "length xs = 0"
    then have "K = 0" by (simp add: K_def)
    with kK show False by simp
  qed
  ultimately have a: "int k * c < int (length xs)" using K(1) by linarith
  define m where "m = k * nat c"
  have im: "int k * c = int m" using assms(1) by (simp add: m_def)
  note a = a [unfolded im]
  have a': "int m < int (length xs)" by (rule a)
  have "py_slice xs (int m) (min (int (length xs)) (int m + c)) =
      take (nat (min (min (int (length xs)) (int m + c)) (int (length xs)) - int m))
        (drop (nat (int m)) xs)"
    using a' assms(1) by (intro py_slice_nonneg) simp_all
  also have "nat (min (min (int (length xs)) (int m + c)) (int (length xs)) - int m) =
        min (length xs - m) (nat c)"
    using a' assms(1) by linarith
  also have "take (min (length xs - m) (nat c)) (drop (nat (int m)) xs) =
      take (nat c) (drop m xs)"
    by (simp add: min_def)
  finally have "py_slice xs (int m) (min (int (length xs)) (int m + c)) =
      take (nat c) (drop m xs)" .
  then show ?thesis unfolding im m_def .
qed


lemma round_binary64_underflow:
  assumes a: "0 < a" and ab: "real a * 2 ^ 1075 < real b"
  shows "round_binary64 a b = Inr 0"
proof -
  have "0 \<le> real a * 2 ^ 1075" by simp
  with ab have rb: "0 < real b" by linarith
  then have b: "0 < b" by simp
  define e0 where "e0 = binary64_exponent a b"
  have E: "2 powi e0 * real b \<le> real a"
    unfolding e0_def by (rule binary64_exponent_le [OF a b])
  have e0: "e0 \<le> - 1022"
  proof (rule ccontr)
    assume "\<not> e0 \<le> - 1022"
    then have "- 1021 \<le> e0" by simp
    then have "(2::real) powi (- 1021) \<le> 2 powi e0" by (intro power_int_increasing) simp_all
    then have "2 powi (- 1021) * real b \<le> 2 powi e0 * real b"
      using rb by (intro mult_right_mono) simp_all
    with E have "2 powi (- 1021) * real b \<le> real a" by linarith
    then have "real b \<le> real a * 2 ^ 1021"
      by (simp add: power_int_def power_one_over field_simps)
    also have "\<dots> \<le> real a * 2 ^ 1075"
      by (intro mult_left_mono power_increasing) simp_all
    finally show False using ab by simp
  qed
  then have e: "max e0 (- 1022) = - 1022" by simp
  define y where "y = real a / real b / 2 powi (- 1074)"
  have y: "y = real a * 2 ^ 1074 / real b"
    by (simp add: y_def power_int_def power_one_over field_simps)
  have "real a * 2 ^ 1074 * 2 < real b" using ab by simp
  then have y2: "y < 1 / 2" using rb by (simp add: y field_simps)
  have y0: "0 \<le> y" by (simp add: y)
  have "\<lfloor>y\<rfloor> = 0" using y0 y2 by (intro floor_unique) simp_all
  then have rhe: "round_half_even y = 0" using y2 by (simp add: round_half_even_def Let_def)
  have m: "(- 1022 :: int) - 52 = - 1074" by simp
  show ?thesis
    unfolding round_binary64_def Let_def e [unfolded e0_def] m y_def [symmetric] rhe by simp
qed

lemma nb_chunk_underflow:
  assumes "0 < n" "int n * 2 ^ 1075 < c"
  shows "nb_chunk n c = Inr 0"
proof -
  have "0 \<le> int n * 2 ^ 1075" by simp
  with assms(2) have c: "0 < c" by linarith
  have "real_of_int (int n * 2 ^ 1075) < real_of_int c"
    using assms(2) by (simp only: of_int_less_iff)
  then have "real n * 2 ^ 1075 < real (nat c)" using c by simp
  from round_binary64_underflow [OF assms(1) this] show ?thesis
    using assms(1) c by (simp add: nb_chunk_def truediv_def)
qed

text \<open>
  Chunk sizes outside the range of the partition theorem: a zero chunk size aborts the
  run, and a chunk size so large that the double quotient underflows to \<open>0.0\<close> makes
  no chunk at all.
\<close>

lemma chunk_bounds_zero: "chunk_bounds n 0 = Inl ZeroDivisionError"
  by (simp add: chunk_bounds_def nb_chunk_def truediv_def)

lemma chunk_bounds_underflow: "chunk_bounds 5 (10 ^ 400) = Inr []"
  using nb_chunk_underflow [of 5 "10 ^ 400"] by (simp add: chunk_bounds_def)

text \<open>
  Claim C8, for the chunk sizes on which it holds. For every position list of fewer than
  \<open>2 ^ 53\<close> positions and every chunk size \<open>0 < chunk_size < 2 ^ 1024\<close>, the chunk
  loop makes \<open>ceil(n / chunk_size)\<close> chunks, their concatenation in loop order is the
  position list itself (contiguous, in position order, every position in exactly one
  chunk), and every chunk has at most \<open>chunk_size\<close> positions.
\<close>

theorem chunking_partition:
  assumes "0 < chunk_size" "chunk_size < 2 ^ 1024" "length chromo_pos < 2 ^ 53"
  shows "\<exists>bs. chunk_bounds (length chromo_pos) chunk_size = Inr bs \<and>
     int (length bs) = \<lceil>real (length chromo_pos) / real_of_int chunk_size\<rceil> \<and>
     concat (map (\<lambda>(chunk_start, chunk_end). py_slice chromo_pos chunk_start chunk_end) bs)
       = chromo_pos \<and>
     (\<forall>(chunk_start, chunk_end)\<in>set bs.
        int (length (py_slice chromo_pos chunk_start chunk_end)) \<le> chunk_size)"
proof -
  note pos = assms(1)
  define K where "K = nat \<lceil>real (length chromo_pos) / real_of_int chunk_size\<rceil>"
  define bs where "bs = map (\<lambda>chunk. (int chunk * chunk_size,
      min (int (length chromo_pos)) (int chunk * chunk_size + chunk_size))) [0..<K]"
  have b: "chunk_bounds (length chromo_pos) chunk_size = Inr bs"
    unfolding bs_def K_def by (rule chunk_bounds_positive [OF assms])
  have Kb: "int (length chromo_pos) \<le> \<lceil>real (length chromo_pos) / real_of_int chunk_size\<rceil> * chunk_size"
    "0 \<le> \<lceil>real (length chromo_pos) / real_of_int chunk_size\<rceil>"
    using nb_chunk_bounds [OF pos, of "length chromo_pos"] by simp_all
  have len: "int (length bs) = \<lceil>real (length chromo_pos) / real_of_int chunk_size\<rceil>"
    using Kb(2) by (simp add: bs_def K_def)
  have sl: "map (\<lambda>(chunk_start, chunk_end). py_slice chromo_pos chunk_start chunk_end) bs =
      map (\<lambda>k. take (nat chunk_size) (drop (k * nat chunk_size) chromo_pos)) [0..<K]"
    unfolding bs_def map_map comp_def case_prod_conv
    by (rule map_cong [OF refl]) (use pos in \<open>simp add: chunk_slice_eq K_def\<close>)
  have "int (length chromo_pos) \<le> int (K * nat chunk_size)"
    using Kb pos by (simp add: K_def)
  then have "length chromo_pos \<le> K * nat chunk_size" by linarith
  then have cc: "concat (map (\<lambda>(chunk_start, chunk_end). py_slice chromo_pos chunk_start chunk_end) bs) = chromo_pos"
    unfolding sl concat_take_drop by simp
  have "int (length (py_slice chromo_pos chunk_start chunk_end)) \<le> chunk_size"
    if "(chunk_start, chunk_end) \<in> set bs" for chunk_start chunk_end
  proof -
    from that obtain k where k: "k < K" "chunk_start = int k * chunk_size"
      "chunk_end = min (int (length chromo_pos)) (int k * chunk_size + chunk_size)"
      by (auto simp: bs_def)
    have "py_slice chromo_pos chunk_start chunk_end =
        take (nat chunk_size) (drop (k * nat chunk_size) chromo_pos)"
      unfolding k(2,3) using pos k(1) by (intro chunk_slice_eq) (simp_all add: K_def)
    then show ?thesis using pos by simp
  qed
  with b len cc show ?thesis by blast
qed

text \<open>Five positions with chunk size 2: three chunks with 2, 2 and 1 positions.\<close>

theorem chunking_partition_witness:
  "(0::int) < 2 \<and> (2::int) < 2 ^ 1024 \<and> length [10, 20, 30, 40, 50 :: int] < 2 ^ 53 \<and>
   chunk_bounds (length [10, 20, 30, 40, 50 :: int]) 2 = Inr [(0, 2), (2, 4), (4, 5)] \<and>
   map (\<lambda>(chunk_start, chunk_end). length (py_slice [10, 20, 30, 40, 50 :: int] chunk_start chunk_end))
     [(0, 2), (2, 4), (4, 5)] = [2, 2, 1] \<and>
   concat (map (\<lambda>(chunk_start, chunk_end). py_slice [10, 20, 30, 40, 50 :: int] chunk_start chunk_end)
     [(0, 2), (2, 4), (4, 5)]) = [10, 20, 30, 40, 50]"
proof -
  have h: "(0::int) < 2" "(2::int) < 2 ^ 1024" "length [10, 20, 30, 40, 50 :: int] < 2 ^ 53"
    by simp_all
  have e: "chunk_bounds (length [10, 20, 30, 40, 50 :: int]) 2 = Inr [(0, 2), (2, 4), (4, 5)]"
    by code_simp
  have l: "map (\<lambda>(chunk_start, chunk_end). length (py_slice [10, 20, 30, 40, 50 :: int] chunk_start chunk_end))
     [(0, 2), (2, 4), (4, 5)] = [2, 2, 1]"
    by code_simp
  from chunking_partition [OF h] obtain bs where
    bs: "chunk_bounds (length [10, 20, 30, 40, 50 :: int]) 2 = Inr bs"
      "concat (map (\<lambda>(chunk_start, chunk_end). py_slice [10, 20, 30, 40, 50 :: int] chunk_start chunk_end) bs)
        = [10, 20, 30, 40, 50]"
    by blast
  from bs(1) e have "bs = [(0, 2), (2, 4), (4, 5)]" by simp
  with bs(2) h e l show ?thesis by simp
qed

text \<open>
  Claim C8 as stated, for every chunk size, fails: \<open>--chunk_size\<close> is an unvalidated int,
  and with five positions and the chunk size \<open>-2\<close> the quotient is \<open>-2.5\<close>, its
  ceiling \<open>-2\<close>, the loop over \<open>range(-2)\<close> is empty, and the chromosome ends
  normally with no chunk written: every position is dropped.
\<close>

theorem chunking_negative_counterexample:
  "chunk_bounds (length [10, 20, 30, 40, 50 :: int]) (- 2) = Inr []"
  by code_simp

subsection \<open>\<open>extract_seq_windows\<close>\<close>

lemma upper_char_idem [simp]: "upper_char (upper_char c) = upper_char c"
  by (auto simp: upper_char_def less_eq_char_def)

lemma upper_idem [simp]: "upper (upper s) = upper s"
  by (simp add: upper_def)

lemma upper_char_N [simp]: "upper_char CHR ''N'' = CHR ''N''"
  by (simp add: upper_char_def less_eq_char_def)

lemma length_upper [simp]: "length (upper s) = length s"
  by (simp add: upper_def)

lemma collect_map_Inr:
  "(\<And>x. x \<in> set xs \<Longrightarrow> f x = Inr (g x)) \<Longrightarrow> collect (map f xs) = Inr (map g xs)"
  by (induction xs) simp_all

lemma int8_id: "- 128 \<le> v \<Longrightarrow> v \<le> 127 \<Longrightarrow> int8 v = v"
  by (simp add: int8_def)

lemma char_to_int_Inr:
  assumes "\<And>c. c \<in> set w \<Longrightarrow> upper_char c = c \<and> CHAR_TO_INT c = Some (g c)"
  shows "char_to_int CHAR_TO_INT w = Inr (map g w)"
proof -
  have u: "upper w = w" unfolding upper_def using assms by (simp add: map_idI)
  show ?thesis unfolding char_to_int_def u
    by (rule collect_map_Inr) (simp add: assms)
qed

lemma fill_row_rel:
  "list_all2 (imputed n vals) xs (fst (fill_row n vals k xs))"
proof (induction xs arbitrary: k)
  case Nil
  then show ?case by simp
next
  case (Cons x xs)
  show ?case
  proof (cases "x = n")
    case True
    have "imputed n vals x (vals k)" using True by (auto simp: imputed_def)
    with Cons [of "Suc k"] True show ?thesis by (simp add: case_prod_unfold Let_def)
  next
    case False
    have "imputed n vals x x" using False by (simp add: imputed_def)
    with Cons [of k] False show ?thesis by (simp add: case_prod_unfold Let_def)
  qed
qed

lemma fill_rows_rel:
  "list_all2 (list_all2 (imputed n vals)) rows (fill_rows n vals k rows)"
proof (induction rows arbitrary: k)
  case Nil
  then show ?case by simp
next
  case (Cons row rows)
  have "list_all2 (imputed n vals) row (fst (fill_row n vals k row))"
    by (rule fill_row_rel)
  with Cons [of "snd (fill_row n vals k row)"] show ?case
    by (simp add: case_prod_unfold Let_def)
qed

lemma randint_range: "0 \<le> randint draws 0 4 j \<and> randint draws 0 4 j < 4"
  by (simp add: randint_def)

lemma seq_window_unfold:
  assumes "wlen div 2 = delta"
  shows "seq_window CHAR_TO_INT seq wlen p =
     (let win = py_slice seq (max 0 (p - delta)) (min (int (length seq)) (p + delta + 1))
      in if int (length win) < wlen then
           (let win' = (replicate (nat (max 0 (delta - p))) CHR ''N'' @ win)
                  @ replicate (nat (max 0 (p + delta + 1 - int (length seq)))) CHR ''N''
            in if int (length win') \<noteq> wlen then Inl AssertionError
               else case char_to_int CHAR_TO_INT win' of Inl e \<Rightarrow> Inl e
                    | Inr vs \<Rightarrow> assign_row (nat wlen) vs)
         else case char_to_int CHAR_TO_INT win of Inl e \<Rightarrow> Inl e
              | Inr vs \<Rightarrow> assign_row (nat wlen) vs)"
  unfolding seq_window_def Let_def assms [symmetric] by (rule refl)


lemma nat_max_diff: "nat (max 0 (int a - int b)) = a - b"
  by simp

lemma slice_len_nat:
  "nat (min (min (int n) (int p + int d + 1)) (int n) - max 0 (int p - int d))
     = min n (p + d + 1) - (p - d)"
proof -
  have 1: "min (min (int n) (int p + int d + 1)) (int n) = int (min n (p + d + 1))"
    by simp
  have 2: "max 0 (int p - int d) = int (p - d)" by simp
  show ?thesis unfolding 1 2 by (simp add: nat_diff_distrib')
qed

lemma pad_right_nat: "nat (max 0 (int p + int d + 1 - int n)) = p + d + 1 - n"
proof -
  have "int p + int d + 1 - int n = int (p + d + 1) - int n" by simp
  then show ?thesis by (simp only: nat_max_diff)
qed

lemma padded_window:
  fixes s :: string and d p :: nat
  assumes p: "p < length s"
  defines "S \<equiv> take (min (length s) (p + d + 1) - (p - d)) (drop (p - d) s)"
  defines "W \<equiv> replicate (d - p) CHR ''N'' @ S @ replicate (p + d + 1 - length s) CHR ''N''"
  shows "seq_window CHAR_TO_INT s (int (2 * d + 1)) (int p) =
      (case char_to_int CHAR_TO_INT W of Inl e \<Rightarrow> Inl e
       | Inr vs \<Rightarrow> assign_row (2 * d + 1) vs)"
    and "length W = 2 * d + 1"
    and "\<And>j. j < 2 * d + 1 \<Longrightarrow> W ! j = win_char s d p j"
proof -
  have lenS: "length S = min (length s) (p + d + 1) - (p - d)"
    unfolding S_def using p by simp
  show lenW: "length W = 2 * d + 1"
    unfolding W_def using p by (simp add: lenS)
  have delta: "int (2 * d + 1) div 2 = int d" by simp
  have a0: "0 \<le> max 0 (int p - int d)" by simp
  have a1: "max 0 (int p - int d) \<le> int (length s)" using p by simp
  have b0: "0 \<le> min (int (length s)) (int p + int d + 1)" by simp
  have na: "nat (max 0 (int p - int d)) = p - d" by (rule nat_max_diff)
  have nb: "nat (min (min (int (length s)) (int p + int d + 1)) (int (length s))
      - max 0 (int p - int d)) = min (length s) (p + d + 1) - (p - d)"
    by (rule slice_len_nat)
  have sl: "py_slice s (max 0 (int p - int d)) (min (int (length s)) (int p + int d + 1)) = S"
    unfolding py_slice_nonneg [OF a0 a1 b0] na nb S_def by (rule refl)
  have ra: "nat (max 0 (int d - int p)) = d - p" by (rule nat_max_diff)
  have rb: "nat (max 0 (int p + int d + 1 - int (length s))) = p + d + 1 - length s"
    by (rule pad_right_nat)
  have W': "(replicate (d - p) CHR ''N'' @ S) @ replicate (p + d + 1 - length s) CHR ''N'' = W"
    by (simp add: W_def)
  show "seq_window CHAR_TO_INT s (int (2 * d + 1)) (int p) =
      (case char_to_int CHAR_TO_INT W of Inl e \<Rightarrow> Inl e
       | Inr vs \<Rightarrow> assign_row (2 * d + 1) vs)"
  proof (cases "int (length S) < int (2 * d + 1)")
    case True
    show ?thesis
      unfolding seq_window_unfold [OF delta] Let_def sl ra rb W' nat_int
      using True lenW by simp
  next
    case False
    then have "d \<le> p" "p + d + 1 \<le> length s" using lenS by linarith+
    then have "W = S" by (simp add: W_def)
    then show ?thesis
      unfolding seq_window_unfold [OF delta] Let_def sl nat_int
      using False by simp
  qed
  show "W ! j = win_char s d p j" if j: "j < 2 * d + 1" for j
  proof -
    consider (left) "j < d - p" | (mid) "d - p \<le> j" "j - (d - p) < length S"
      | (right) "d - p \<le> j" "length S \<le> j - (d - p)"
      by linarith
    then show ?thesis
    proof cases
      case left
      then have "W ! j = CHR ''N''" by (simp add: W_def nth_append)
      moreover have "\<not> d \<le> p + j" using left by linarith
      ultimately show ?thesis by (simp add: win_char_def)
    next
      case mid
      define k where "k = j - (d - p)"
      have k: "k < length S" using mid by (simp add: k_def)
      have "W ! j = S ! k"
        using mid by (simp add: W_def nth_append k_def)
      also have "\<dots> = drop (p - d) s ! k"
        unfolding S_def using k lenS by simp
      also have "\<dots> = s ! ((p - d) + k)"
        using p by (intro nth_drop) simp
      also have "(p - d) + k = p + j - d" using mid by (simp add: k_def)
      finally have "W ! j = s ! (p + j - d)" .
      moreover have "d \<le> p + j" "p + j - d < length s" using mid lenS by linarith+
      ultimately show ?thesis by (simp add: win_char_def)
    next
      case right
      have "(d - p) + length S + (p + d + 1 - length s) = 2 * d + 1"
        using lenW by (simp add: W_def)
      then have "j - (d - p) - length S < p + d + 1 - length s"
        using right j by linarith
      then have "W ! j = CHR ''N''"
        using right by (simp add: W_def nth_append)
      moreover have "\<not> (d \<le> p + j \<and> p + j - d < length s)"
        using right lenS p j by linarith
      ultimately show ?thesis unfolding win_char_def by (simp only: if_False)
    qed
  qed
qed

lemma upper_char_fixed: "c \<in> set (upper seq) \<Longrightarrow> upper_char c = c"
  by (auto simp: upper_def)

lemma win_char_cases:
  "win_char s d p j = CHR ''N'' \<or> win_char s d p j \<in> set s"
  by (simp add: win_char_def)

lemma seq_window_row:
  fixes seq :: string and code :: "char \<Rightarrow> int"
  defines "s \<equiv> upper seq"
  assumes q: "q < length s"
    and tab: "\<And>c. c \<in> set s \<or> c = CHR ''N'' \<Longrightarrow> CHAR_TO_INT c = Some (code c)"
    and rng: "\<And>c. c \<in> set s \<or> c = CHR ''N'' \<Longrightarrow> - 128 \<le> code c \<and> code c \<le> 127"
  shows "seq_window CHAR_TO_INT s (int (2 * d + 1)) (int q) =
      Inr (map (\<lambda>j. code (win_char s d q j)) [0..<2 * d + 1])"
proof -
  define W where "W = replicate (d - q) CHR ''N''
      @ take (min (length s) (q + d + 1) - (q - d)) (drop (q - d) s)
      @ replicate (q + d + 1 - length s) CHR ''N''"
  note pw1 = padded_window(1) [OF q, where d = d and CHAR_TO_INT = CHAR_TO_INT,
      unfolded W_def [symmetric]]
  note pw2 = padded_window(2) [OF q, where d = d, unfolded W_def [symmetric]]
  note pw3 = padded_window(3) [OF q, where d = d, unfolded W_def [symmetric]]
  have W: "W = map (win_char s d q) [0..<2 * d + 1]"
  proof (rule nth_equalityI)
    show "length W = length (map (win_char s d q) [0..<2 * d + 1])"
      using pw2 by simp
    fix j assume "j < length W"
    then have j: "j < 2 * d + 1" using pw2 by simp
    then have "map (win_char s d q) [0..<2 * d + 1] ! j = win_char s d q j"
      by (simp only: nth_map_upt add_0)
    with pw3 [OF j] show "W ! j = map (win_char s d q) [0..<2 * d + 1] ! j" by simp
  qed
  have mem: "c \<in> set s \<or> c = CHR ''N''" if "c \<in> set W" for c
  proof -
    from that obtain j where "c = win_char s d q j" unfolding W by auto
    with win_char_cases [of s d q j] show ?thesis by blast
  qed
  have c2i: "char_to_int CHAR_TO_INT W = Inr (map code W)"
  proof (rule char_to_int_Inr)
    fix c assume c: "c \<in> set W"
    have "upper_char c = c"
    proof (cases "c = CHR ''N''")
      case True
      then show ?thesis by simp
    next
      case False
      with mem [OF c] have "c \<in> set (upper seq)" by (simp add: s_def)
      then show ?thesis by (rule upper_char_fixed)
    qed
    with tab [OF mem [OF c]] show "upper_char c = c \<and> CHAR_TO_INT c = Some (code c)" by simp
  qed
  have "map int8 (map code W) = map code W"
  proof (rule map_idI)
    fix x assume "x \<in> set (map code W)"
    then obtain c where c: "c \<in> set W" "x = code c" by auto
    from rng [OF mem [OF c(1)]] c(2) show "int8 x = x" by (simp add: int8_id)
  qed
  then have ar: "assign_row (2 * d + 1) (map code W) = Inr (map code W)"
    using pw2 by (simp add: assign_row_def)
  have "seq_window CHAR_TO_INT s (int (2 * d + 1)) (int q) = Inr (map code W)"
    unfolding pw1 c2i using ar by simp
  also have "map code W = map (\<lambda>j. code (win_char s d q j)) [0..<2 * d + 1]"
    unfolding W by simp
  finally show ?thesis .
qed

lemma imputed_range:
  assumes "imputed n (randint draws 0 4) x y" "x = n \<or> (0 \<le> x \<and> x < 4)"
    "\<not> (0 \<le> n \<and> n < 4)"
  shows "0 \<le> y \<and> y < 4"
proof (cases "x = n")
  case True
  with assms(1) obtain j where "y = randint draws 0 4 j" by (auto simp: imputed_def)
  then show ?thesis using randint_range [of draws j] by simp
next
  case False
  with assms(1) have "y = x" by (simp add: imputed_def)
  with False assms(2) show ?thesis by simp
qed

lemma imputed_keep: "imputed n vals x y \<Longrightarrow> x \<noteq> n \<Longrightarrow> y = x"
  by (simp add: imputed_def)

lemma extract_seq_windows_unfold:
  assumes "0 \<le> wlen"
    and "collect (map (\<lambda>pos_i. seq_window CHAR_TO_INT (upper seq) wlen (pos_i - seq_index)) pos)
          = Inr rows"
    and "CHAR_TO_INT CHR ''N'' = Some n"
    and "concat (fill_rows n (randint draws 0 4) 0 rows) \<noteq> []"
    and "\<forall>v\<in>set (concat (fill_rows n (randint draws 0 4) 0 rows)). v < 4"
  shows "extract_seq_windows CHAR_TO_INT draws seq pos wlen seq_index False
      = Inr (fill_rows n (randint draws 0 4) 0 rows)"
  using assms by (simp add: extract_seq_windows_def Let_def)

lemma seq_windows_rows:
  fixes seq :: string and CHAR_TO_INT :: "char \<rightharpoonup> int"
  defines "s \<equiv> upper seq"
  defines "code \<equiv> \<lambda>c. the (CHAR_TO_INT c)"
  assumes N: "CHAR_TO_INT CHR ''N'' = Some n" "- 128 \<le> n" "n \<le> 127"
    and bases: "\<And>c. c \<in> set s \<Longrightarrow> c \<noteq> CHR ''N'' \<Longrightarrow>
        \<exists>v. CHAR_TO_INT c = Some v \<and> 0 \<le> v \<and> v < 4"
    and pos: "\<And>p. p \<in> set pos \<Longrightarrow> 1 \<le> p \<and> p \<le> int (length seq)"
  shows "collect (map (\<lambda>pos_i. seq_window CHAR_TO_INT s (int (2 * d + 1)) (pos_i - 1)) pos)
      = Inr (map (\<lambda>p. map (\<lambda>j. code (win_char s d (nat (p - 1)) j)) [0..<2 * d + 1]) pos)"
proof (rule collect_map_Inr)
  fix p assume p: "p \<in> set pos"
  from pos [OF p] have "nat (p - 1) < length seq" by linarith
  then have q: "nat (p - 1) < length s" by (simp add: s_def)
  from pos [OF p] have pq: "p - 1 = int (nat (p - 1))" by simp
  have tab: "CHAR_TO_INT c = Some (code c)" if "c \<in> set s \<or> c = CHR ''N''" for c
  proof (cases "c = CHR ''N''")
    case True
    then show ?thesis using N(1) by (simp add: code_def)
  next
    case False
    with that bases [of c] obtain v where "CHAR_TO_INT c = Some v" by blast
    then show ?thesis by (simp add: code_def)
  qed
  have rng: "- 128 \<le> code c \<and> code c \<le> 127" if "c \<in> set s \<or> c = CHR ''N''" for c
  proof (cases "c = CHR ''N''")
    case True
    then show ?thesis using N by (simp add: code_def)
  next
    case False
    with that bases [of c] obtain v where "CHAR_TO_INT c = Some v" "0 \<le> v" "v < 4" by blast
    then show ?thesis by (simp add: code_def)
  qed
  have "seq_window CHAR_TO_INT s (int (2 * d + 1)) (int (nat (p - 1))) =
      Inr (map (\<lambda>j. code (win_char s d (nat (p - 1)) j)) [0..<2 * d + 1])"
    unfolding s_def
    by (rule seq_window_row) (use q tab rng in \<open>simp_all add: s_def\<close>)
  then show "seq_window CHAR_TO_INT s (int (2 * d + 1)) (p - 1) =
      Inr (map (\<lambda>j. code (win_char s d (nat (p - 1)) j)) [0..<2 * d + 1])"
    using pq by simp
qed

lemma extract_seq_windows_cells:
  fixes seq :: string and CHAR_TO_INT :: "char \<rightharpoonup> int"
  assumes wlen: "odd wlen" "0 < wlen"
    and N: "CHAR_TO_INT CHR ''N'' = Some n" "\<not> (0 \<le> n \<and> n < 4)" "- 128 \<le> n" "n \<le> 127"
    and bases: "\<And>c. c \<in> set (upper seq) \<Longrightarrow> c \<noteq> CHR ''N'' \<Longrightarrow>
        \<exists>v. CHAR_TO_INT c = Some v \<and> 0 \<le> v \<and> v < 4"
    and pos: "pos \<noteq> []" "\<And>p. p \<in> set pos \<Longrightarrow> 1 \<le> p \<and> p \<le> int (length seq)"
  shows "\<exists>seq_wins.
      extract_seq_windows CHAR_TO_INT draws seq pos wlen 1 False = Inr seq_wins \<and>
      length seq_wins = length pos \<and>
      (\<forall>i<length pos.
         length (seq_wins ! i) = nat wlen \<and>
         (\<forall>v\<in>set (seq_wins ! i). 0 \<le> v \<and> v < 4) \<and>
         (\<forall>j<nat wlen.
            win_char (upper seq) (nat (wlen div 2)) (nat (pos ! i - 1)) j \<noteq> CHR ''N'' \<longrightarrow>
            seq_wins ! i ! j =
              the (CHAR_TO_INT (win_char (upper seq) (nat (wlen div 2)) (nat (pos ! i - 1)) j))) \<and>
         (3 \<le> wlen \<and> nat (pos ! i) < length seq \<and>
          upper seq ! nat (pos ! i - 1) = CHR ''C'' \<and> upper seq ! nat (pos ! i) = CHR ''G'' \<longrightarrow>
            seq_wins ! i ! nat (wlen div 2) = the (CHAR_TO_INT CHR ''C'') \<and>
            seq_wins ! i ! (nat (wlen div 2) + 1) = the (CHAR_TO_INT CHR ''G'')))"
proof -
  define s where "s = upper seq"
  define d where "d = nat (wlen div 2)"
  define code where "code = (\<lambda>c. the (CHAR_TO_INT c))"
  define vals where "vals = randint draws 0 4"
  define rows where
    "rows = map (\<lambda>p. map (\<lambda>j. code (win_char s d (nat (p - 1)) j)) [0..<2 * d + 1]) pos"
  define out where "out = fill_rows n vals 0 rows"
  from wlen(1) obtain k where k: "wlen = 2 * k + 1" by (rule oddE)
  with wlen(2) have k0: "0 \<le> k" by linarith
  have "wlen div 2 = k" unfolding k by simp
  then have "int d = k" using k0 by (simp add: d_def)
  then have w: "wlen = int (2 * d + 1)" using k by simp
  have nw: "nat wlen = 2 * d + 1" unfolding w by simp
  have col: "collect (map (\<lambda>pos_i. seq_window CHAR_TO_INT (upper seq) wlen (pos_i - 1)) pos)
      = Inr rows"
    unfolding w rows_def s_def code_def
    by (rule seq_windows_rows) (use N bases pos in simp_all)
  have rel: "list_all2 (list_all2 (imputed n vals)) rows out"
    unfolding out_def by (rule fill_rows_rel)
  have lrows: "length rows = length pos" by (simp add: rows_def)
  have len: "length out = length pos"
    using list_all2_lengthD [OF rel] lrows by simp
  have row: "rows ! i = map (\<lambda>j. code (win_char s d (nat (pos ! i - 1)) j)) [0..<2 * d + 1]"
    if "i < length pos" for i
    unfolding rows_def using that by (rule nth_map)
  have lrow: "length (rows ! i) = 2 * d + 1" if "i < length pos" for i
    unfolding row [OF that] by (simp only: length_map length_upt diff_zero)
  have rowj: "rows ! i ! j = code (win_char s d (nat (pos ! i - 1)) j)"
    if "i < length pos" "j < 2 * d + 1" for i j
    unfolding row [OF that(1)] using that(2) by (simp del: upt_Suc)
  have reli: "list_all2 (imputed n vals) (rows ! i) (out ! i)" if "i < length pos" for i
    by (rule list_all2_nthD [OF rel]) (simp add: lrows that)
  have leni: "length (out ! i) = 2 * d + 1" if "i < length pos" for i
    using list_all2_lengthD [OF reli [OF that]] lrow [OF that] by simp
  have cell: "imputed n vals (code (win_char s d (nat (pos ! i - 1)) j)) (out ! i ! j)"
    if "i < length pos" "j < 2 * d + 1" for i j
  proof -
    have "imputed n vals (rows ! i ! j) (out ! i ! j)"
      by (rule list_all2_nthD [OF reli [OF that(1)]]) (use that in \<open>simp add: lrow\<close>)
    then show ?thesis by (simp only: rowj [OF that])
  qed
  have src: "code c = n \<or> (0 \<le> code c \<and> code c < 4)"
    if "c = win_char s d q j" for c q j
  proof (cases "c = CHR ''N''")
    case True
    then show ?thesis using N(1) by (simp add: code_def)
  next
    case False
    with that win_char_cases [of s d q j] have "c \<in> set (upper seq)" by (simp add: s_def)
    from bases [OF this False] show ?thesis by (auto simp: code_def)
  qed
  have keep: "out ! i ! j = code (win_char s d (nat (pos ! i - 1)) j)"
    if "i < length pos" "j < 2 * d + 1" "win_char s d (nat (pos ! i - 1)) j \<noteq> CHR ''N''" for i j
  proof -
    have "win_char s d (nat (pos ! i - 1)) j \<in> set (upper seq)"
      using that(3) win_char_cases [of s d "nat (pos ! i - 1)" j] by (simp add: s_def)
    from bases [OF this that(3)] have "code (win_char s d (nat (pos ! i - 1)) j) \<noteq> n"
      using N(2) by (auto simp: code_def)
    with cell [OF that(1,2)] show ?thesis by (rule imputed_keep)
  qed
  have range: "0 \<le> v \<and> v < 4" if "i < length pos" "v \<in> set (out ! i)" for i v
  proof -
    from that(2) obtain j where j: "j < length (out ! i)" "v = out ! i ! j"
      by (auto simp: in_set_conv_nth)
    then have j': "j < 2 * d + 1" using leni [OF that(1)] by simp
    from cell [OF that(1) j'] src [OF refl] N(2) show ?thesis
      unfolding vals_def j(2) by (rule imputed_range)
  qed
  have all: "0 \<le> v \<and> v < 4" if "v \<in> set (concat out)" for v
  proof -
    from that obtain r where r: "r \<in> set out" "v \<in> set r" by auto
    then obtain i where "i < length out" "r = out ! i" by (auto simp: in_set_conv_nth)
    with r(2) len range show ?thesis by simp
  qed
  have ne: "concat out \<noteq> []"
  proof -
    have "0 < length pos" using pos(1) by simp
    then have "out ! 0 \<in> set out" "length (out ! 0) = 2 * d + 1"
      using len leni [of 0] by simp_all
    then have "out ! 0 \<in> set out" "out ! 0 \<noteq> []" by auto
    then show ?thesis by auto
  qed
  have res: "extract_seq_windows CHAR_TO_INT draws seq pos wlen 1 False = Inr out"
    unfolding out_def vals_def
  proof (rule extract_seq_windows_unfold [OF _ col N(1)])
    show "0 \<le> wlen" using wlen(2) by simp
    show "concat (fill_rows n (randint draws 0 4) 0 rows) \<noteq> []"
      using ne by (simp add: out_def vals_def)
    show "\<forall>v\<in>set (concat (fill_rows n (randint draws 0 4) 0 rows)). v < 4"
      using all by (simp add: out_def vals_def)
  qed
  have cg: "out ! i ! d = code CHR ''C'' \<and> out ! i ! (d + 1) = code CHR ''G''"
    if i: "i < length pos" and c: "3 \<le> wlen" "nat (pos ! i) < length seq"
      "upper seq ! nat (pos ! i - 1) = CHR ''C''" "upper seq ! nat (pos ! i) = CHR ''G''" for i
  proof -
    define q where "q = nat (pos ! i - 1)"
    from pos(2) [of "pos ! i"] i have p1: "1 \<le> pos ! i" by simp
    then have sq: "Suc q = nat (pos ! i)" by (simp add: q_def)
    have d1: "1 \<le> d" using c(1) w by simp
    have q: "q < length s" "Suc q < length s" using c(2) sq by (simp_all add: s_def)
    have "win_char s d q d = s ! q" using q by (simp add: win_char_def)
    then have wc: "win_char s d q d = CHR ''C''" using c(3) by (simp add: q_def s_def)
    have "win_char s d q (d + 1) = s ! Suc q" using q by (simp add: win_char_def)
    then have wg: "win_char s d q (d + 1) = CHR ''G''" using c(4) sq by (simp add: s_def)
    have "out ! i ! d = code (win_char s d (nat (pos ! i - 1)) d)"
      by (rule keep [OF i]) (use wc in \<open>simp_all add: q_def\<close>)
    moreover have "out ! i ! (d + 1) = code (win_char s d (nat (pos ! i - 1)) (d + 1))"
      by (rule keep [OF i]) (use wg d1 in \<open>simp_all add: q_def\<close>)
    ultimately show ?thesis using wc wg by (simp add: q_def)
  qed
  show ?thesis
  proof (intro exI conjI allI impI)
    show "extract_seq_windows CHAR_TO_INT draws seq pos wlen 1 False = Inr out" by (rule res)
    show "length out = length pos" by (rule len)
  next
    fix i assume i: "i < length pos"
    show "length (out ! i) = nat wlen" using leni [OF i] nw by simp
    show "\<forall>v\<in>set (out ! i). 0 \<le> v \<and> v < 4" using range [OF i] by blast
  next
    fix i j
    assume i: "i < length pos" and j: "j < nat wlen"
      and c: "win_char (upper seq) (nat (wlen div 2)) (nat (pos ! i - 1)) j \<noteq> CHR ''N''"
    from j nw have j': "j < 2 * d + 1" by simp
    from keep [OF i j'] c
    show "out ! i ! j =
        the (CHAR_TO_INT (win_char (upper seq) (nat (wlen div 2)) (nat (pos ! i - 1)) j))"
      by (simp add: s_def d_def code_def)
  next
    fix i
    assume i: "i < length pos"
      and c: "3 \<le> wlen \<and> nat (pos ! i) < length seq \<and>
          upper seq ! nat (pos ! i - 1) = CHR ''C'' \<and> upper seq ! nat (pos ! i) = CHR ''G''"
    from cg [OF i] c
    show "out ! i ! nat (wlen div 2) = the (CHAR_TO_INT CHR ''C'')"
      by (simp add: d_def code_def)
    from cg [OF i] c
    show "out ! i ! (nat (wlen div 2) + 1) = the (CHAR_TO_INT CHR ''G'')"
      by (simp add: d_def code_def)
  qed
qed

text \<open>
  Claim C2, for the inputs on which it holds. Let \<open>wlen\<close> be odd and positive, the table
  give the unknown base \<open>N\<close> an \<open>int8\<close> code outside \<open>0 .. 3\<close> and every other
  base of the sequence a code in \<open>0 .. 3\<close>, and let every position of a non-empty array
  \<open>pos\<close> be a 1-based position of the sequence. Then \<open>extract_seq_windows\<close> returns one
  window per position; every window has exactly \<open>wlen\<close> values, all in \<open>0 .. 3\<close>, also
  at a position within \<open>wlen // 2\<close> of a sequence end; a column that lies in the sequence
  and holds a known base holds the code of that base; and when the two bases at the centre
  are \<open>CG\<close> (the test \<open>seq[p:p + 2] == 'CG'\<close> of the source), the centre value is the
  code of \<open>C\<close> and the next value the code of \<open>G\<close>.
\<close>

theorem extract_seq_windows_correct:
  fixes seq :: string and CHAR_TO_INT :: "char \<rightharpoonup> int"
  assumes wlen: "odd wlen" "0 < wlen"
    and N: "CHAR_TO_INT CHR ''N'' = Some n" "n < 0 \<or> 4 \<le> n" "- 128 \<le> n" "n \<le> 127"
    and bases: "\<forall>c\<in>set (upper seq). c \<noteq> CHR ''N'' \<longrightarrow>
        (\<exists>v. CHAR_TO_INT c = Some v \<and> 0 \<le> v \<and> v < 4)"
    and pos: "pos \<noteq> []" "\<forall>p\<in>set pos. 1 \<le> p \<and> p \<le> int (length seq)"
  shows "\<exists>seq_wins.
      extract_seq_windows CHAR_TO_INT draws seq pos wlen 1 False = Inr seq_wins \<and>
      length seq_wins = length pos \<and>
      (\<forall>i<length pos.
         length (seq_wins ! i) = nat wlen \<and>
         (\<forall>v\<in>set (seq_wins ! i). 0 \<le> v \<and> v < 4) \<and>
         (\<forall>j<nat wlen.
            0 \<le> pos ! i - 1 + int j - wlen div 2 \<and>
            pos ! i - 1 + int j - wlen div 2 < int (length seq) \<and>
            upper seq ! nat (pos ! i - 1 + int j - wlen div 2) \<noteq> CHR ''N'' \<longrightarrow>
            CHAR_TO_INT (upper seq ! nat (pos ! i - 1 + int j - wlen div 2))
              = Some (seq_wins ! i ! j)) \<and>
         (3 \<le> wlen \<and> py_slice (upper seq) (pos ! i - 1) (pos ! i - 1 + 2) = ''CG'' \<longrightarrow>
            CHAR_TO_INT CHR ''C'' = Some (seq_wins ! i ! nat (wlen div 2)) \<and>
            CHAR_TO_INT CHR ''G'' = Some (seq_wins ! i ! (nat (wlen div 2) + 1))))"
proof -
  define s where "s = upper seq"
  define d where "d = nat (wlen div 2)"
  have N2: "\<not> (0 \<le> n \<and> n < 4)" using N(2) by linarith
  have b: "\<exists>v. CHAR_TO_INT c = Some v \<and> 0 \<le> v \<and> v < 4"
    if "c \<in> set (upper seq)" "c \<noteq> CHR ''N''" for c
    using bases that by blast
  have p: "1 \<le> p \<and> p \<le> int (length seq)" if "p \<in> set pos" for p
    using pos(2) that by blast
  note cells = extract_seq_windows_cells [where CHAR_TO_INT = CHAR_TO_INT and seq = seq
      and pos = pos and wlen = wlen and n = n and draws = draws,
      OF wlen N(1) N2 N(3,4) _ pos(1) _]
  have "\<exists>seq_wins.
      extract_seq_windows CHAR_TO_INT draws seq pos wlen 1 False = Inr seq_wins \<and>
      length seq_wins = length pos \<and>
      (\<forall>i<length pos.
        length (seq_wins ! i) = nat wlen \<and>
        (\<forall>v\<in>set (seq_wins ! i). 0 \<le> v \<and> v < 4) \<and>
        (\<forall>j<nat wlen.
           win_char (upper seq) (nat (wlen div 2)) (nat (pos ! i - 1)) j \<noteq> CHR ''N'' \<longrightarrow>
           seq_wins ! i ! j =
             the (CHAR_TO_INT (win_char (upper seq) (nat (wlen div 2)) (nat (pos ! i - 1)) j))) \<and>
        (3 \<le> wlen \<and> nat (pos ! i) < length seq \<and>
         upper seq ! nat (pos ! i - 1) = CHR ''C'' \<and> upper seq ! nat (pos ! i) = CHR ''G'' \<longrightarrow>
           seq_wins ! i ! nat (wlen div 2) = the (CHAR_TO_INT CHR ''C'') \<and>
           seq_wins ! i ! (nat (wlen div 2) + 1) = the (CHAR_TO_INT CHR ''G'')))"
    by (rule cells) (rule b p; assumption)+
  then obtain seq_wins where
    res: "extract_seq_windows CHAR_TO_INT draws seq pos wlen 1 False = Inr seq_wins"
    and len: "length seq_wins = length pos"
    and rows0: "\<forall>i<length pos.
        length (seq_wins ! i) = nat wlen \<and>
        (\<forall>v\<in>set (seq_wins ! i). 0 \<le> v \<and> v < 4) \<and>
        (\<forall>j<nat wlen.
           win_char (upper seq) (nat (wlen div 2)) (nat (pos ! i - 1)) j \<noteq> CHR ''N'' \<longrightarrow>
           seq_wins ! i ! j =
             the (CHAR_TO_INT (win_char (upper seq) (nat (wlen div 2)) (nat (pos ! i - 1)) j))) \<and>
        (3 \<le> wlen \<and> nat (pos ! i) < length seq \<and>
         upper seq ! nat (pos ! i - 1) = CHR ''C'' \<and> upper seq ! nat (pos ! i) = CHR ''G'' \<longrightarrow>
           seq_wins ! i ! nat (wlen div 2) = the (CHAR_TO_INT CHR ''C'') \<and>
           seq_wins ! i ! (nat (wlen div 2) + 1) = the (CHAR_TO_INT CHR ''G''))"
    by (elim exE conjE) (rule that; assumption)
  have rows: "length (seq_wins ! i) = nat wlen \<and>
        (\<forall>v\<in>set (seq_wins ! i). 0 \<le> v \<and> v < 4) \<and>
        (\<forall>j<nat wlen. win_char s d (nat (pos ! i - 1)) j \<noteq> CHR ''N'' \<longrightarrow>
           seq_wins ! i ! j = the (CHAR_TO_INT (win_char s d (nat (pos ! i - 1)) j))) \<and>
        (3 \<le> wlen \<and> nat (pos ! i) < length seq \<and>
         s ! nat (pos ! i - 1) = CHR ''C'' \<and> s ! nat (pos ! i) = CHR ''G'' \<longrightarrow>
           seq_wins ! i ! d = the (CHAR_TO_INT CHR ''C'') \<and>
           seq_wins ! i ! (d + 1) = the (CHAR_TO_INT CHR ''G''))"
    if "i < length pos" for i
    unfolding s_def d_def by (rule rows0 [THEN spec, THEN mp, OF that])
  have d: "int d = wlen div 2" using wlen(2) by (simp add: d_def)
  have ls: "length s = length seq" by (simp add: s_def)
  have code: "CHAR_TO_INT c = Some (the (CHAR_TO_INT c))" if "c \<in> set s" "c \<noteq> CHR ''N''" for c
  proof -
    from b [of c] that obtain v where "CHAR_TO_INT c = Some v" by (auto simp: s_def)
    then show ?thesis by simp
  qed
  have cell: "CHAR_TO_INT (s ! nat (pos ! i - 1 + int j - wlen div 2)) = Some (seq_wins ! i ! j)"
    if i: "i < length pos" and j: "j < nat wlen"
      and q: "0 \<le> pos ! i - 1 + int j - wlen div 2"
        "pos ! i - 1 + int j - wlen div 2 < int (length seq)"
        "s ! nat (pos ! i - 1 + int j - wlen div 2) \<noteq> CHR ''N''" for i j
  proof -
    define q where "q = nat (pos ! i - 1)"
    from p [of "pos ! i"] i have "1 \<le> pos ! i" by simp
    then have iq: "pos ! i - 1 = int q" by (simp add: q_def)
    have n1: "d \<le> q + j" using q(1) unfolding iq d [symmetric] by linarith
    have n2: "nat (int q + int j - int d) = q + j - d" by linarith
    have n3: "q + j - d < length s" using q(2) n1 unfolding iq d [symmetric] ls by linarith
    have wc: "win_char s d q j = s ! (q + j - d)" using n1 n3 by (simp add: win_char_def)
    have c: "s ! (q + j - d) \<noteq> CHR ''N''" using q(3) unfolding iq d [symmetric] n2 .
    have mem: "s ! (q + j - d) \<in> set s" using n3 by simp
    from rows [OF i] j wc c
    have "seq_wins ! i ! j = the (CHAR_TO_INT (s ! (q + j - d)))" by (simp add: q_def)
    with code [OF mem c]
    have "CHAR_TO_INT (s ! (q + j - d)) = Some (seq_wins ! i ! j)" by simp
    then show ?thesis unfolding iq d [symmetric] n2 .
  qed
  have cg: "CHAR_TO_INT CHR ''C'' = Some (seq_wins ! i ! d) \<and>
      CHAR_TO_INT CHR ''G'' = Some (seq_wins ! i ! (d + 1))"
    if i: "i < length pos" and w3: "3 \<le> wlen"
      and sl: "py_slice s (pos ! i - 1) (pos ! i - 1 + 2) = ''CG''" for i
  proof -
    define q where "q = nat (pos ! i - 1)"
    from p [of "pos ! i"] i have pi: "1 \<le> pos ! i" "pos ! i \<le> int (length seq)" by simp_all
    then have iq: "pos ! i - 1 = int q" by (simp add: q_def)
    have ql: "q < length s" using pi by (simp add: q_def ls)
    have "py_slice s (int q) (int q + 2) =
        take (nat (min (int q + 2) (int (length s)) - int q)) (drop (nat (int q)) s)"
      using ql by (intro py_slice_nonneg) simp_all
    moreover have "nat (min (int q + 2) (int (length s)) - int q) = min 2 (length s - q)"
      using ql by linarith
    ultimately have t: "take (min 2 (length s - q)) (drop q s) = ''CG''"
      using sl unfolding iq by simp
    then have "length (take (min 2 (length s - q)) (drop q s)) = 2" by simp
    then have l2: "q + 2 \<le> length s" by simp
    then have "min 2 (length s - q) = 2" by linarith
    with t have t2: "take 2 (drop q s) = ''CG''" by simp
    have "s ! q = drop q s ! 0" using l2 by simp
    also have "\<dots> = take 2 (drop q s) ! 0" by simp
    also have "\<dots> = CHR ''C''" unfolding t2 by simp
    finally have c: "s ! q = CHR ''C''" .
    have "s ! Suc q = drop q s ! 1" using l2 by simp
    also have "\<dots> = take 2 (drop q s) ! 1" by simp
    also have "\<dots> = CHR ''G''" unfolding t2 by simp
    finally have g: "s ! Suc q = CHR ''G''" .
    have sq: "nat (pos ! i) = Suc q" using pi by (simp add: q_def)
    have "nat (pos ! i) < length seq" using l2 sq ls by simp
    with rows [OF i] w3 c g sq
    have "seq_wins ! i ! d = the (CHAR_TO_INT CHR ''C'')"
      "seq_wins ! i ! (d + 1) = the (CHAR_TO_INT CHR ''G'')"
      by (simp_all add: q_def)
    moreover have "CHR ''C'' \<in> set s" using c ql by (metis nth_mem)
    moreover have "CHR ''G'' \<in> set s" using g l2 by (metis Suc_le_lessD add_2_eq_Suc' nth_mem)
    ultimately show ?thesis using code [of "CHR ''C''"] code [of "CHR ''G''"] by simp
  qed
  show ?thesis
  proof (intro exI conjI allI impI)
    show "extract_seq_windows CHAR_TO_INT draws seq pos wlen 1 False = Inr seq_wins" by (rule res)
    show "length seq_wins = length pos" by (rule len)
  next
    fix i assume i: "i < length pos"
    show "length (seq_wins ! i) = nat wlen" using rows [OF i] by blast
    show "\<forall>v\<in>set (seq_wins ! i). 0 \<le> v \<and> v < 4" using rows [OF i] by blast
  next
    fix i j
    assume i: "i < length pos" and j: "j < nat wlen"
      and q: "0 \<le> pos ! i - 1 + int j - wlen div 2 \<and>
            pos ! i - 1 + int j - wlen div 2 < int (length seq) \<and>
            upper seq ! nat (pos ! i - 1 + int j - wlen div 2) \<noteq> CHR ''N''"
    from cell [OF i j] q
    show "CHAR_TO_INT (upper seq ! nat (pos ! i - 1 + int j - wlen div 2))
        = Some (seq_wins ! i ! j)"
      by (simp add: s_def)
  next
    fix i
    assume i: "i < length pos"
      and c: "3 \<le> wlen \<and> py_slice (upper seq) (pos ! i - 1) (pos ! i - 1 + 2) = ''CG''"
    from cg [OF i] c
    show "CHAR_TO_INT CHR ''C'' = Some (seq_wins ! i ! nat (wlen div 2))"
      by (simp add: s_def d_def)
    from cg [OF i] c
    show "CHAR_TO_INT CHR ''G'' = Some (seq_wins ! i ! (nat (wlen div 2) + 1))"
      by (simp add: s_def d_def)
  qed
qed

text \<open>
  Three windows of length 3 on \<open>aacgtt\<close>: at the first base (padded on the left), at the
  CpG site, and at the last base (padded on the right); the draws are 1, 2, ...
\<close>

theorem extract_seq_windows_correct_witness:
  "odd (3::int) \<and> (0::int) < 3 \<and>
   base_codes CHR ''N'' = Some 4 \<and> ((4::int) < 0 \<or> (4::int) \<le> 4) \<and>
   - 128 \<le> (4::int) \<and> (4::int) \<le> 127 \<and>
   upper ''aacgtt'' = ''AACGTT'' \<and> [1, 3, 6 :: int] \<noteq> [] \<and>
   length ''aacgtt'' = 6 \<and>
   extract_seq_windows base_codes Suc ''aacgtt'' [1, 3, 6] 3 1 False
     = Inr [[1, 0, 0], [0, 3, 2], [1, 1, 2]] \<and>
   py_slice (upper ''aacgtt'') (3 - 1) (3 - 1 + 2) = ''CG'' \<and>
   base_codes CHR ''C'' = Some 3 \<and> base_codes CHR ''G'' = Some 2"
proof -
  have u: "upper ''aacgtt'' = ''AACGTT''" by code_simp
  have w: "odd (3::int)" "(0::int) < 3" by simp_all
  have n: "base_codes CHR ''N'' = Some 4" "(4::int) < 0 \<or> (4::int) \<le> 4"
    "- 128 \<le> (4::int)" "(4::int) \<le> 127"
    by (simp_all add: base_codes_def)
  have b: "\<forall>c\<in>set (upper ''aacgtt''). c \<noteq> CHR ''N'' \<longrightarrow>
      (\<exists>v. base_codes c = Some v \<and> 0 \<le> v \<and> v < 4)"
    unfolding u by (simp add: base_codes_def)
  have p: "[1, 3, 6 :: int] \<noteq> []"
    "\<forall>p\<in>set [1, 3, 6 :: int]. 1 \<le> p \<and> p \<le> int (length ''aacgtt'')"
    by simp_all
  have e: "extract_seq_windows base_codes Suc ''aacgtt'' [1, 3, 6] 3 1 False
      = Inr [[1, 0, 0], [0, 3, 2], [1, 1, 2]]"
    by code_simp
  have cg: "py_slice (upper ''aacgtt'') (3 - 1) (3 - 1 + 2) = ''CG''" by code_simp
  from extract_seq_windows_correct [where CHAR_TO_INT = base_codes and draws = Suc, OF w n b p]
  obtain seq_wins where
    r: "extract_seq_windows base_codes Suc ''aacgtt'' [1, 3, 6] 3 1 False = Inr seq_wins"
    and c: "\<forall>i<length [1, 3, 6 :: int].
      length (seq_wins ! i) = nat 3 \<and>
      (\<forall>v\<in>set (seq_wins ! i). 0 \<le> v \<and> v < 4) \<and>
      (\<forall>j<nat 3.
         0 \<le> [1, 3, 6] ! i - 1 + int j - 3 div 2 \<and>
         [1, 3, 6] ! i - 1 + int j - 3 div 2 < int (length ''aacgtt'') \<and>
         upper ''aacgtt'' ! nat ([1, 3, 6] ! i - 1 + int j - 3 div 2) \<noteq> CHR ''N'' \<longrightarrow>
         base_codes (upper ''aacgtt'' ! nat ([1, 3, 6] ! i - 1 + int j - 3 div 2))
           = Some (seq_wins ! i ! j)) \<and>
      (3 \<le> (3::int) \<and>
       py_slice (upper ''aacgtt'') ([1, 3, 6] ! i - 1) ([1, 3, 6] ! i - 1 + 2) = ''CG'' \<longrightarrow>
         base_codes CHR ''C'' = Some (seq_wins ! i ! nat (3 div 2)) \<and>
         base_codes CHR ''G'' = Some (seq_wins ! i ! (nat (3 div 2) + 1)))"
    by (elim exE conjE) (rule that; assumption)
  from r e have s: "seq_wins = [[1, 0, 0], [0, 3, 2], [1, 1, 2]]" by simp
  from c [THEN spec, of 1] cg
  have "base_codes CHR ''C'' = Some (seq_wins ! 1 ! nat (3 div 2)) \<and>
        base_codes CHR ''G'' = Some (seq_wins ! 1 ! (nat (3 div 2) + 1))"
    by simp
  then have "base_codes CHR ''C'' = Some 3 \<and> base_codes CHR ''G'' = Some 2"
    unfolding s by simp
  moreover have "length ''aacgtt'' = 6" by simp
  ultimately show ?thesis using w n u p(1) e cg by blast
qed

text \<open>
  Claim C2 as stated, for every odd window length and every 1-based position, fails.
  \<open>--dna_wlen\<close> is an unvalidated int: \<open>-1\<close> is odd and passes the argument check, and
  \<open>np.zeros\<close> raises \<open>ValueError\<close> for it. A position that lies more than
  \<open>wlen // 2 + 1\<close> behind the end of the sequence gets too many \<open>N\<close> on the right and
  fails the assertion \<open>len(win) == wlen\<close>: position 7 on a sequence of four bases with
  \<open>wlen = 3\<close>.
\<close>

theorem extract_seq_windows_counterexample:
  "odd (- 1 :: int) \<and>
   extract_seq_windows base_codes Suc ''ACGT'' [2] (- 1) 1 False = Inl ValueError \<and>
   odd (3 :: int) \<and> (1 :: int) \<le> 7 \<and>
   extract_seq_windows base_codes Suc ''ACGT'' [7] 3 1 False = Inl AssertionError"
  by code_simp

subsection \<open>The argument check\<close>







subsection \<open>The coverage filter\<close>

lemma and_then_simps [simp]:
  "and_then (Inl e) f = Inl e" "and_then (Inr x) f = f x"
  by (simp_all add: and_then_def)





lemma chromo_loop_Cons:
  assumes "unique (map fst pos_table) = chromo # chromos"
    and "chromo_body nan opts outputs pos_table rest chromo = Inr []"
  shows "chromo_loop nan opts outputs pos_table rest =
     and_then (collect (map (chromo_body nan opts outputs pos_table rest) chromos))
       (\<lambda>shards. Inr (concat shards))"
  unfolding chromo_loop_def assms(1) using assms(2)
  by (cases "collect (map (chromo_body nan opts outputs pos_table rest) chromos)") simp_all




subsection \<open>Per-site statistics\<close>

lemma masked_values_Some:
  assumes "\<exists>row\<in>set x. value \<in> set row"
  shows "masked_values x value = (x, Some (map (map (\<lambda>v. v = value)) x))"
proof -
  from assms have "\<exists>row\<in>set (map (map (\<lambda>v. v = value)) x). \<exists>b\<in>set row. b" by auto
  then show ?thesis unfolding masked_values_def Let_def by (simp only: if_True)
qed

lemma masked_values_None:
  assumes "\<forall>row\<in>set x. value \<notin> set row"
  shows "masked_values x value = (x, None)"
proof -
  from assms have "\<not> (\<exists>row\<in>set (map (map (\<lambda>v. v = value)) x). \<exists>b\<in>set row. b)" by auto
  then show ?thesis unfolding masked_values_def Let_def by (simp only: if_False)
qed

lemma unmasked_row:
  "mask_select row (map (Not \<circ> (\<lambda>v. v = nan)) row) = filter (\<lambda>v. v \<noteq> nan) row"
  using mask_select_self [of row "Not \<circ> (\<lambda>v. v = nan)"] by (simp add: comp_def)

lemma unmasked_count:
  "length (filter (Not \<circ> (\<lambda>v. v = nan)) row) = coverage nan row"
  by (simp add: coverage_def comp_def)

lemma site_stats_rows:
  "map (\<lambda>(s, b). if b then of_int nan else s)
     (zip (map (\<lambda>(row, mrow). f (mask_select row (map Not mrow)))
             (zip x (map (map (\<lambda>v. v = nan)) x)))
          (map ((\<lambda>mrow. int (length (filter Not mrow)) < c) \<circ> map (\<lambda>v. v = nan)) x))
   = map (\<lambda>row. if int (coverage nan row) < c then of_int nan
                  else f (filter (\<lambda>v. v \<noteq> nan) row)) x"
proof (induction x)
  case Nil
  then show ?case by simp
next
  case (Cons row x)
  then show ?case by (simp add: unmasked_row unmasked_count)
qed

lemma cpg_stats_unfold:
  assumes "opts_stats opts = Some names" "names \<noteq> []"
    and "\<exists>row\<in>set cpg_mat. nan \<in> set row"
  shows "cpg_stats stats_get nan opts cpg_mat (length cpg_mat) =
     Inr (map (\<lambda>name. (''stats/'' @ name,
                        if name \<in> set [''mode'', ''cat_var'', ''cat2_var'', ''diff'']
                        then np_int8 else np_float32,
                        map (\<lambda>row. if int (coverage nan row) < opts_stats_cov opts then of_int nan
                                     else stats_get name (filter (\<lambda>v. v \<noteq> nan) row)) cpg_mat))
            (unique names))"
proof -
  have t: "truthy_list (opts_stats opts)" using assms(1,2) by (simp add: truthy_list_def)
  have "cpg_stats stats_get nan opts cpg_mat (length cpg_mat) =
      collect (map (\<lambda>(name, fun, dtype).
         let stat = map (\<lambda>row. if int (coverage nan row) < opts_stats_cov opts then of_int nan
                                  else fun (filter (\<lambda>v. v \<noteq> nan) row)) cpg_mat
         in if length stat \<noteq> length cpg_mat then Inl AssertionError
            else Inr (''stats/'' @ name, dtype, stat))
        (get_stats_meta stats_get names))"
    unfolding cpg_stats_def masked_values_Some [OF assms(3)] Let_def
    using t assms(1) by (simp add: site_stats_rows)
  also have "\<dots> = Inr (map (\<lambda>(name, fun, dtype). (''stats/'' @ name, dtype,
        map (\<lambda>row. if int (coverage nan row) < opts_stats_cov opts then of_int nan
                     else fun (filter (\<lambda>v. v \<noteq> nan) row)) cpg_mat))
      (get_stats_meta stats_get names))"
    by (rule collect_map_Inr) (simp add: case_prod_unfold)
  finally show ?thesis by (simp add: get_stats_meta_def comp_def)
qed

lemma set_unique [simp]: "set (unique xs) = set xs"
  by (simp add: unique_def)

text \<open>
  Claim C6, for the chunks on which it holds. When statistics are requested and some
  value of the chunk is missing, every requested statistic is written once, with one
  value per position of the chunk: \<open>CPG_NAN\<close> when fewer than \<open>stats_cov\<close> values of
  the position are observed, and else the reduction of the observed values of the
  position.
\<close>

theorem cpg_stats_correct:
  assumes "opts_stats opts = Some names" "names \<noteq> []"
    and "\<exists>row\<in>set cpg_mat. nan \<in> set row"
  shows "\<exists>ds. cpg_stats stats_get nan opts cpg_mat (length cpg_mat) = Inr ds \<and>
     map fst ds = map (\<lambda>name. ''stats/'' @ name) (unique names) \<and>
     (\<forall>name\<in>set names. \<exists>dtype stat.
        (''stats/'' @ name, dtype, stat) \<in> set ds \<and>
        length stat = length cpg_mat \<and>
        (\<forall>i<length cpg_mat.
           stat ! i = (if int (coverage nan (cpg_mat ! i)) < opts_stats_cov opts then of_int nan
                       else stats_get name (filter (\<lambda>v. v \<noteq> nan) (cpg_mat ! i)))))"
proof -
  define site where "site = (\<lambda>name row.
      if int (coverage nan row) < opts_stats_cov opts then of_int nan
      else stats_get name (filter (\<lambda>v. v \<noteq> nan) row))"
  define ty where "ty = (\<lambda>name. if name \<in> set [''mode'', ''cat_var'', ''cat2_var'', ''diff'']
      then np_int8 else np_float32)"
  define ds where "ds = map (\<lambda>name. (''stats/'' @ name, ty name, map (site name) cpg_mat))
      (unique names)"
  have r: "cpg_stats stats_get nan opts cpg_mat (length cpg_mat) = Inr ds"
    unfolding ds_def site_def ty_def by (rule cpg_stats_unfold [OF assms])
  have p: "map fst ds = map (\<lambda>name. ''stats/'' @ name) (unique names)"
    by (simp add: ds_def comp_def)
  have v: "\<exists>dtype stat. (''stats/'' @ name, dtype, stat) \<in> set ds \<and>
        length stat = length cpg_mat \<and>
        (\<forall>i<length cpg_mat. stat ! i = site name (cpg_mat ! i))"
    if "name \<in> set names" for name
  proof (intro exI conjI)
    show "(''stats/'' @ name, ty name, map (site name) cpg_mat) \<in> set ds"
      using that by (auto simp: ds_def)
    show "length (map (site name) cpg_mat) = length cpg_mat" by simp
    show "\<forall>i<length cpg_mat. map (site name) cpg_mat ! i = site name (cpg_mat ! i)" by simp
  qed
  from r p v show ?thesis unfolding site_def by blast
qed

text \<open>
  The matrix of the two cells of the example, with the mean as statistic and the
  minimum coverage 2: the positions that only one cell observes get \<open>CPG_NAN\<close>.
\<close>

theorem cpg_stats_correct_witness:
  "opts_stats (default_opts\<lparr>opts_stats := Some [''mean''], opts_stats_cov := 2\<rparr>) = Some [''mean''] \<and>
   [''mean''] \<noteq> [] \<and> (- 1 :: int) \<in> set [1, - 1] \<and>
   cpg_stats mean_of (- 1) (default_opts\<lparr>opts_stats := Some [''mean''], opts_stats_cov := 2\<rparr>)
       [[1, - 1], [0, 1], [1, 1], [- 1, 0]] (length [[1, - 1], [0, 1], [1, 1], [- 1, 0 :: int]])
     = Inr [(''stats/mean'', np_float32, [- 1, 1 / 2, 1, - 1])]"
proof -
  let ?o = "default_opts\<lparr>opts_stats := Some [''mean''], opts_stats_cov := 2\<rparr>"
  let ?m = "[[1, - 1], [0, 1], [1, 1], [- 1, 0 :: int]]"
  have h: "opts_stats ?o = Some [''mean'']" "[''mean''] \<noteq> []" "(- 1 :: int) \<in> set [1, - 1]"
    by simp_all
  have e: "\<exists>row\<in>set ?m. (- 1) \<in> set row" by simp
  from cpg_stats_correct [OF h(1,2) e, of mean_of] obtain ds where
    ds: "cpg_stats mean_of (- 1) ?o ?m (length ?m) = Inr ds" by blast
  have "cpg_stats mean_of (- 1) ?o ?m (length ?m)
      = Inr [(''stats/mean'', np_float32, [- 1, 1 / 2, 1, - 1])]"
    by code_simp
  with ds h show ?thesis by simp
qed

text \<open>
  Claim C6 as stated, for every position of every chunk, fails. In a chunk without a
  missing value, here one cell that is observed at both positions, the mask of
  \<open>masked_values\<close> is \<open>nomask\<close>, \<open>np.sum(~cpg_mat.mask, axis=1)\<close> raises, and no
  statistic is written.
\<close>

theorem cpg_stats_nomask_counterexample:
  "cpg_stats mean_of (- 1) (default_opts\<lparr>opts_stats := Some [''mean'']\<rparr>) [[1], [0]]
     (length [[1], [0 :: int]]) = Inl ValueError"
  by code_simp

subsection \<open>Per-window statistics: the datasets that are written\<close>



lemma get_stats_meta_eq_Nil [simp]: "get_stats_meta stats_get names = [] \<longleftrightarrow> names = []"
  by (simp add: get_stats_meta_def unique_def)




end
